theory Spec2Isabelle
  imports Main "HOL-Library.AList"
begin

section \<open>Event model\<close>

text \<open>
  The ledger's events carry a list of keys and a list of data fields. The ingestion
  scripts read \<open>keys[0]\<close> and \<open>data[i]\<close>; a JavaScript read past the end of an array
  gives \<open>undefined\<close>, which is \<open>None\<close> here.
\<close>

record rpc_event =
  keys :: "string list"
  data :: "string list"

definition at :: "'a list \<Rightarrow> nat \<Rightarrow> 'a option" where
  "at xs i = (if i < length xs then Some (xs ! i) else None)"

definition SpawnedBot_hash :: string where
  "SpawnedBot_hash = ''0x2cd0383e81a65036ae8acc94ac89e891d1385ce01ae6cc127c27615f5420fa3''"

definition TileMined_hash :: string where
  "TileMined_hash = ''0xd5efc9cfb6a4f6bb9eae0ce39d32480473877bb3f7a4eaa3944c881a2c8d25''"

definition BombFound_hash :: string where
  "BombFound_hash = ''0x111861367b42e77c11a98efb6d09a14c2dc470eee1a4d2c3c1e8c54015da2e5''"

definition DiamondFound_hash :: string where
  "DiamondFound_hash = ''0x14528085c8fd64b9210572c5b6015468f8352c17c9c22f5b7aa62a55a56d8d7''"

definition TileAlreadyMined_hash :: string where
  "TileAlreadyMined_hash = ''0x1b74d97806c93468070e49a1626aba00f8e89dfb07246492af4566f898de982''"

definition SuspendBot_hash :: string where
  "SuspendBot_hash = ''0x1dcca826eea45d96bfbf26e9aabf510e94c6de62d0ce5e5b6e60c51c7640af8''"

definition ReviveBot_hash :: string where
  "ReviveBot_hash = ''0x1d6a6a42fd13b206a721dbca3ae720621707ef3016850e2c5536244e5a7858a''"

text \<open>
  \<open>EVENT_MAP\<close> is the object literal of the source, read as a finite map. The keys of
  the ledger are field elements printed as \<open>0x\<close>-prefixed hexadecimal, so no key names
  a property that a JavaScript object inherits.
\<close>

definition EVENT_MAP :: "string \<rightharpoonup> string" where
  "EVENT_MAP = map_of
     [(SpawnedBot_hash, ''SpawnedBot''),
      (TileMined_hash, ''TileMined''),
      (BombFound_hash, ''BombFound''),
      (DiamondFound_hash, ''DiamondFound''),
      (TileAlreadyMined_hash, ''TileAlreadyMined''),
      (SuspendBot_hash, ''SuspendBot''),
      (ReviveBot_hash, ''ReviveBot'')]"

text \<open>\<open>EVENT_MAP[key] || "TransferEvent"\<close>: every name of the table is a non-empty
  string, so the default is taken exactly when the key is absent or undefined.\<close>

definition eventName :: "string option \<Rightarrow> string" where
  "eventName k =
     (case k of
        None \<Rightarrow> ''TransferEvent''
      | Some h \<Rightarrow> (case EVENT_MAP h of None \<Rightarrow> ''TransferEvent'' | Some n \<Rightarrow> n))"

text \<open>The event object that \<open>fetchAndStoreEvents\<close> builds from a ledger event:
  \<open>{block, key: event.keys[0], data: event.data, timestamp}\<close>. Time is a number of
  milliseconds.\<close>

record event =
  ev_block :: nat
  ev_key :: "string option"
  ev_data :: "string list"
  ev_timestamp :: nat

definition mk_event :: "nat \<Rightarrow> nat \<Rightarrow> rpc_event \<Rightarrow> event" where
  "mk_event blockNumber now e =
     \<lparr>ev_block = blockNumber, ev_key = at (keys e) 0, ev_data = data e, ev_timestamp = now\<rparr>"

section \<open>The persistent store\<close>

text \<open>
  Four collections, as the mongoose schemas declare them. A collection is the list of
  its documents in insertion order; no schema declares a unique index on a bot address
  or on a (bot address, location) pair, so a list may hold several documents with one key.
  A field filled from \<open>data[i]\<close> is optional; a filter on an undefined value is sent as
  null and matches the documents whose field is null or missing, which is equality on
  \<open>None\<close>. Scores are JavaScript numbers; every score the scripts write is a sum
  of 0, 10 and 5000, an integer far below \<open>2^53\<close>, so \<open>int\<close> is exact.
\<close>

record bot =
  bot_address :: "string option"
  player :: "string option"
  status :: string
  score :: int
  starting_tile :: "string option"

record mine =
  mine_bot_address :: "string option"
  location :: "string option"
  mine_type :: string
  mine_timestamp :: nat

record transaction =
  tx_block :: nat
  event_name :: string
  event_hash :: "string option"
  tx_data :: "string list"
  tx_timestamp :: nat

text \<open>The store keeps a journal of the writes that completed, in the order in which
  they completed, so that the order of the script's awaited writes can be stated.\<close>

datatype store_write =
    BotsWritten nat
  | MinesWritten nat
  | TransactionsWritten nat
  | CheckpointWritten nat

record db =
  Bot :: "bot list"
  Mine :: "mine list"
  Transaction :: "transaction list"
  Checkpoint :: "nat option"
  journal :: "store_write list"

subsection \<open>Bulk operations\<close>

text \<open>
  The three shapes of \<open>updateOne\<close> that \<open>processEventsBatch\<close> pushes on \<open>bulkBots\<close>,
  each with the filter \<open>{bot_address}\<close>:
  \<open>$inc: {score: n}\<close>; \<open>$set: {status: s}\<close>; and, with \<open>upsert: true\<close>,
  \<open>$set: {bot_address, player, status: "alive", score: 0, starting_tile}\<close>.
\<close>

datatype bot_op =
    IncScore "string option" int
  | SetStatus "string option" string
  | UpsertSpawn "string option" "string option" "string option"

fun bot_filter :: "bot_op \<Rightarrow> string option" where
  "bot_filter (IncScore a n) = a"
| "bot_filter (SetStatus a s) = a"
| "bot_filter (UpsertSpawn a p t) = a"

fun bot_update :: "bot_op \<Rightarrow> bot \<Rightarrow> bot" where
  "bot_update (IncScore a n) b = b\<lparr>score := score b + n\<rparr>"
| "bot_update (SetStatus a s) b = b\<lparr>status := s\<rparr>"
| "bot_update (UpsertSpawn a p t) b =
     b\<lparr>bot_address := a, player := p, status := ''alive'', score := 0, starting_tile := t\<rparr>"

fun bot_insert :: "bot_op \<Rightarrow> bot list" where
  "bot_insert (IncScore a n) = []"
| "bot_insert (SetStatus a s) = []"
| "bot_insert (UpsertSpawn a p t) =
     [\<lparr>bot_address = a, player = p, status = ''alive'', score = 0, starting_tile = t\<rparr>]"

text \<open>\<open>updateOne\<close>: the first document that matches the filter is updated; when none
  matches, an upsert inserts one document and any other update does nothing.\<close>

fun bot_updateOne :: "bot_op \<Rightarrow> bot list \<Rightarrow> bot list" where
  "bot_updateOne op [] = bot_insert op"
| "bot_updateOne op (b # bs) =
     (if bot_address b = bot_filter op then bot_update op b # bs
      else b # bot_updateOne op bs)"

text \<open>
  The two shapes pushed on \<open>bulkMines\<close>, each with the filter
  \<open>{bot_address, location}\<close> and \<open>upsert: true\<close>: \<open>$setOnInsert\<close> and \<open>$set\<close> of
  \<open>{bot_address, location, mine_type, timestamp}\<close>.
\<close>

datatype mine_op =
    SetOnInsert "string option" "string option" string nat
  | ForceSet "string option" "string option" string nat

fun mine_filter :: "mine_op \<Rightarrow> string option \<times> string option" where
  "mine_filter (SetOnInsert a l t ts) = (a, l)"
| "mine_filter (ForceSet a l t ts) = (a, l)"

definition mine_key :: "mine \<Rightarrow> string option \<times> string option" where
  "mine_key m = (mine_bot_address m, location m)"

fun mine_doc :: "mine_op \<Rightarrow> mine" where
  "mine_doc (SetOnInsert a l t ts) =
     \<lparr>mine_bot_address = a, location = l, mine_type = t, mine_timestamp = ts\<rparr>"
| "mine_doc (ForceSet a l t ts) =
     \<lparr>mine_bot_address = a, location = l, mine_type = t, mine_timestamp = ts\<rparr>"

fun mine_update :: "mine_op \<Rightarrow> mine \<Rightarrow> mine" where
  "mine_update (SetOnInsert a l t ts) m = m"
| "mine_update (ForceSet a l t ts) m =
     m\<lparr>mine_bot_address := a, location := l, mine_type := t, mine_timestamp := ts\<rparr>"

fun mine_updateOne :: "mine_op \<Rightarrow> mine list \<Rightarrow> mine list" where
  "mine_updateOne op [] = [mine_doc op]"
| "mine_updateOne op (m # ms) =
     (if mine_key m = mine_filter op then mine_update op m # ms
      else m # mine_updateOne op ms)"

text \<open>
  \<open>bulkWrite(ops, {ordered: false})\<close>: every operation of the array is applied.
  An unordered bulk write leaves the server free in the order; the operations are applied
  here in the order of the array, and every write is taken to succeed. The block number
  given to a write is only its mark in the journal.
\<close>

definition Bot_bulkWrite :: "nat \<Rightarrow> bot_op list \<Rightarrow> db \<Rightarrow> db" where
  "Bot_bulkWrite blockNumber ops s =
     s\<lparr>Bot := fold bot_updateOne ops (Bot s), journal := journal s @ [BotsWritten blockNumber]\<rparr>"

definition Mine_bulkWrite :: "nat \<Rightarrow> mine_op list \<Rightarrow> db \<Rightarrow> db" where
  "Mine_bulkWrite blockNumber ops s =
     s\<lparr>Mine := fold mine_updateOne ops (Mine s), journal := journal s @ [MinesWritten blockNumber]\<rparr>"

definition Transaction_bulkWrite :: "nat \<Rightarrow> transaction list \<Rightarrow> db \<Rightarrow> db" where
  "Transaction_bulkWrite blockNumber docs s =
     s\<lparr>Transaction := Transaction s @ docs,
       journal := journal s @ [TransactionsWritten blockNumber]\<rparr>"

subsection \<open>The checkpoint\<close>

definition getLastProcessedBlock :: "db \<Rightarrow> nat" where
  "getLastProcessedBlock s = (case Checkpoint s of Some v \<Rightarrow> v | None \<Rightarrow> 430)"

definition updateCheckpoint :: "nat \<Rightarrow> db \<Rightarrow> db" where
  "updateCheckpoint blockNumber s =
     s\<lparr>Checkpoint := Some blockNumber, journal := journal s @ [CheckpointWritten blockNumber]\<rparr>"

section \<open>The batch mutator\<close>

text \<open>What the \<open>switch (key)\<close> of \<open>processEventsBatch\<close> pushes for one event, with
  \<open>bot_address = data[0]\<close>.\<close>

definition bulkBots_of :: "event \<Rightarrow> bot_op list" where
  "bulkBots_of e =
     (let bot_address = at (ev_data e) 0 in
      if ev_key e = Some TileMined_hash then [IncScore bot_address 10]
      else if ev_key e = Some DiamondFound_hash then [IncScore bot_address 5000]
      else if ev_key e = Some BombFound_hash then [SetStatus bot_address ''dead'']
      else if ev_key e = Some SpawnedBot_hash
        then [UpsertSpawn bot_address (at (ev_data e) 1) (at (ev_data e) 2)]
      else [])"

definition bulkMines_of :: "event \<Rightarrow> mine_op list" where
  "bulkMines_of e =
     (let bot_address = at (ev_data e) 0 in
      if ev_key e = Some TileMined_hash
        then [SetOnInsert bot_address (at (ev_data e) 2) ''Empty'' (ev_timestamp e)]
      else if ev_key e = Some DiamondFound_hash
        then [ForceSet bot_address (at (ev_data e) 2) ''Diamond'' (ev_timestamp e)]
      else if ev_key e = Some BombFound_hash
        then [ForceSet bot_address (at (ev_data e) 1) ''Bomb'' (ev_timestamp e)]
      else [])"

definition bulkTransactions_of :: "nat \<Rightarrow> event \<Rightarrow> transaction" where
  "bulkTransactions_of blockNumber e =
     \<lparr>tx_block = blockNumber, event_name = eventName (ev_key e), event_hash = ev_key e,
      tx_data = ev_data e, tx_timestamp = ev_timestamp e\<rparr>"

definition processEventsBatch :: "event list \<Rightarrow> nat \<Rightarrow> db \<Rightarrow> db" where
  "processEventsBatch events blockNumber s =
     (let bulkBots = concat (map bulkBots_of events);
          bulkMines = concat (map bulkMines_of events);
          bulkTransactions = map (bulkTransactions_of blockNumber) events;
          s1 = (if bulkBots \<noteq> [] then Bot_bulkWrite blockNumber bulkBots s else s);
          s2 = (if bulkMines \<noteq> [] then Mine_bulkWrite blockNumber bulkMines s1 else s1)
      in if bulkTransactions \<noteq> [] then Transaction_bulkWrite blockNumber bulkTransactions s2
         else s2)"

section \<open>The block scanner and the ingestion loop\<close>

text \<open>
  One answer of \<open>provider.getEvents\<close>: either the call throws (the ledger is
  unreachable, or the answer has no \<open>events\<close> array to map over), or it gives a page of
  events and a continuation token; the third component is the clock when the page was
  mapped to event objects. A scan of a block is answered by a script of pages, one for each
  call of the \<open>do ... while\<close> loop; a call beyond the end of the script is a call
  that the ledger does not answer, which the provider reports by throwing.
\<close>

datatype page = PageError | Page "rpc_event list" "string option" nat

text \<open>\<open>response.continuation_token || null\<close>, then \<open>while (continuationToken)\<close>:
  an absent token and the empty string both end the loop.\<close>

definition truthy :: "string option \<Rightarrow> bool" where
  "truthy t = (case t of None \<Rightarrow> False | Some v \<Rightarrow> v \<noteq> [])"

text \<open>The \<open>do ... while\<close> loop of \<open>fetchAndStoreEvents\<close>: \<open>None\<close> when a call
  throws, otherwise the events of all pages. A script is finite, so a ledger that gives a
  token with every page for ever, on which the loop would not end, is not among the
  ledgers considered.\<close>

fun getEvents_loop :: "nat \<Rightarrow> page list \<Rightarrow> event list \<Rightarrow> event list option" where
  "getEvents_loop blockNumber [] events = None"
| "getEvents_loop blockNumber (PageError # ps) events = None"
| "getEvents_loop blockNumber (Page es token now # ps) events =
     (if truthy token
      then getEvents_loop blockNumber ps (events @ map (mk_event blockNumber now) es)
      else Some (events @ map (mk_event blockNumber now) es))"

text \<open>
  The state of a run of the ingestion script: the store, and the list of the blocks for
  which \<open>fetchAndStoreEvents\<close> has been called so far. The ledger is a function
  \<open>rpc n b\<close>: the script of pages that answers the \<open>n\<close>-th scan of the run, which asks
  for block \<open>b\<close>; so an answer may fail at one scan and succeed at a later one.
\<close>

record ingest =
  store :: db
  scanned :: "nat list"

definition fetchAndStoreEvents :: "(nat \<Rightarrow> nat \<Rightarrow> page list) \<Rightarrow> nat \<Rightarrow> ingest \<Rightarrow> ingest" where
  "fetchAndStoreEvents rpc blockNumber w =
     (let w' = w\<lparr>scanned := scanned w @ [blockNumber]\<rparr> in
      case getEvents_loop blockNumber (rpc (length (scanned w)) blockNumber) [] of
        None \<Rightarrow> w'
      | Some events \<Rightarrow>
          w'\<lparr>store := updateCheckpoint blockNumber
                 (if events \<noteq> [] then processEventsBatch events blockNumber (store w)
                  else store w)\<rparr>)"

text \<open>
  \<open>fetchLiveBlocks\<close> loops for ever; its run is given by the block numbers that the
  successive calls of \<open>provider.getBlock("latest")\<close> return, and the function below
  runs one turn of the \<open>while (true)\<close> loop for each of them (a call that throws ends
  the run, since nothing catches it). The \<open>for\<close> loop visits \<open>startBlock + 1\<close> up to
  and including \<open>latestBlockNumber\<close>.
\<close>

fun fetchLiveBlocks :: "(nat \<Rightarrow> nat \<Rightarrow> page list) \<Rightarrow> nat \<Rightarrow> nat list \<Rightarrow> ingest \<Rightarrow> ingest" where
  "fetchLiveBlocks rpc startBlock [] w = w"
| "fetchLiveBlocks rpc startBlock (latestBlockNumber # heads) w =
     fetchLiveBlocks rpc latestBlockNumber heads
       (fold (fetchAndStoreEvents rpc) [startBlock + 1 ..< latestBlockNumber + 1] w)"

text \<open>The checkpoint values and the batch writes in a stretch of the journal.\<close>

fun checkpoints :: "store_write list \<Rightarrow> nat list" where
  "checkpoints [] = []"
| "checkpoints (CheckpointWritten b # ws) = b # checkpoints ws"
| "checkpoints (w # ws) = checkpoints ws"

fun batch_write_of :: "nat \<Rightarrow> store_write \<Rightarrow> bool" where
  "batch_write_of b (BotsWritten c) = (b = c)"
| "batch_write_of b (MinesWritten c) = (b = c)"
| "batch_write_of b (TransactionsWritten c) = (b = c)"
| "batch_write_of b (CheckpointWritten c) = False"

section \<open>The live poller and the broadcast buffer\<close>

text \<open>The item that \<open>fetchTransactions\<close> puts on the queue for a pending event.\<close>

record item =
  item_event_name :: string
  item_data :: "string list"
  item_timestamp :: nat

definition format_transaction :: "nat \<Rightarrow> rpc_event \<Rightarrow> item" where
  "format_transaction now tx =
     \<lparr>item_event_name = eventName (at (keys tx) 0), item_data = data tx, item_timestamp = now\<rparr>"

text \<open>What \<open>startStreaming\<close> stores for a client. Times are milliseconds.\<close>

record clientInfo =
  client_id :: nat
  batchSize :: nat
  nextBatchTime :: int
  batchInterval :: int
  queueBacklog :: "item list"

text \<open>
  The manager of the variant with a bounded queue and per-client backlogs. The clients
  are a JavaScript \<open>Map\<close> from sockets to their info, an association list in insertion
  order; a socket is named by a number. \<open>pollInterval\<close> tells whether the timer is set.
\<close>

record TransactionManager =
  transactionQueue :: "item list"
  continuationToken :: "string option"
  isFetching :: bool
  connectedClients :: "(nat \<times> clientInfo) list"
  pollInterval :: bool
  maxQueueSize :: nat

definition constructor :: TransactionManager where
  "constructor =
     \<lparr>transactionQueue = [], continuationToken = None, isFetching = False,
      connectedClients = [], pollInterval = False, maxQueueSize = 5000\<rparr>"

text \<open>The request body: the continuation token is added only when it is truthy.\<close>

record payload =
  chunk_size :: nat
  continuation_token :: "string option"

text \<open>What comes back: the fetch or the JSON parser throws, or the answer has no
  \<open>result.events\<close>, or it has events and possibly a continuation token.\<close>

datatype response = Throws | NoEvents | Events "rpc_event list" "string option"

text \<open>\<open>xs.slice(0, e)\<close>: a negative end counts from the end of the array.\<close>

definition slice0 :: "'a list \<Rightarrow> int \<Rightarrow> 'a list" where
  "slice0 xs e = (if e < 0 then take (nat (int (length xs) + e)) xs else take (nat e) xs)"

text \<open>
  \<open>fetchTransactions\<close> is asynchronous: it runs up to the \<open>await fetch\<close>, other
  callbacks may run while the request is in flight and while the answer is parsed, and it
  resumes with the answer; it reads and writes the manager only before the first
  \<open>await\<close> and after the last. \<open>fetchTransactions_call\<close> is the part before the
  first \<open>await\<close>; it gives the request that is issued, if any.
  \<open>fetchTransactions_resume\<close> is the part after the last, with the clock at that time.
\<close>

definition fetchTransactions_call :: "nat \<Rightarrow> TransactionManager \<Rightarrow> TransactionManager \<times> payload option" where
  "fetchTransactions_call limit tm =
     (if isFetching tm then (tm, None)
      else if length (transactionQueue tm) \<ge> maxQueueSize tm then (tm, None)
      else (tm\<lparr>isFetching := True\<rparr>,
            Some \<lparr>chunk_size = limit,
                  continuation_token =
                    (if truthy (continuationToken tm) then continuationToken tm else None)\<rparr>))"

definition fetchTransactions_resume :: "nat \<Rightarrow> response \<Rightarrow> TransactionManager \<Rightarrow> TransactionManager" where
  "fetchTransactions_resume now r tm =
     (case r of
        Throws \<Rightarrow> tm\<lparr>isFetching := False\<rparr>
      | NoEvents \<Rightarrow> tm\<lparr>isFetching := False\<rparr>
      | Events transactions token \<Rightarrow>
          if length transactions > 0 then
            (let formattedTransactions =
                   map (format_transaction now)
                     (slice0 transactions
                        (min (int (length transactions))
                             (int (maxQueueSize tm) - int (length (transactionQueue tm)))))
             in tm\<lparr>continuationToken := token,
                   transactionQueue := transactionQueue tm @ formattedTransactions,
                   isFetching := False\<rparr>)
          else tm\<lparr>isFetching := False\<rparr>)"

definition startPolling :: "TransactionManager \<Rightarrow> TransactionManager \<times> payload option" where
  "startPolling tm =
     (let (tm', req) = fetchTransactions_call 200 tm in (tm'\<lparr>pollInterval := True\<rparr>, req))"

text \<open>The cap on a backlog: \<open>push(...batch)\<close>, then \<open>slice(-1000)\<close> when the length
  is above 1000.\<close>

definition push_backlog :: "item list \<Rightarrow> item list \<Rightarrow> item list" where
  "push_backlog batch backlog =
     (let b = backlog @ batch in if length b > 1000 then drop (length b - 1000) b else b)"

text \<open>\<open>queueFactor\<close> is 0.5, 0.7 or 1; it is kept in tenths, and the product with
  \<open>batchInterval\<close> (always 100) is exact.\<close>

definition queueFactor10 :: "TransactionManager \<Rightarrow> int" where
  "queueFactor10 tm =
     (if length (transactionQueue tm) > 1000 then 5
      else if length (transactionQueue tm) > 500 then 7 else 10)"

definition schedule_next :: "nat \<Rightarrow> int \<Rightarrow> TransactionManager \<Rightarrow> TransactionManager" where
  "schedule_next ws now tm =
     tm\<lparr>connectedClients :=
          map (\<lambda>(w, ci). if w = ws
                 then (w, ci\<lparr>nextBatchTime := now + batchInterval ci * queueFactor10 tm div 10\<rparr>)
                 else (w, ci))
              (connectedClients tm)\<rparr>"

text \<open>What a call of \<open>sendBatchToClient\<close> did with the socket.\<close>

datatype delivery = Nothing | Sent "item list" | SendThrew

text \<open>
  \<open>sendBatchToClient(ws)\<close>, with what it reads from outside: the socket's
  \<open>readyState\<close>, the clock, and whether \<open>ws.send\<close> returns (\<open>True\<close>) or throws.
\<close>

definition sendBatchToClient :: "nat \<Rightarrow> nat \<Rightarrow> int \<Rightarrow> bool \<Rightarrow> TransactionManager \<Rightarrow> TransactionManager \<times> delivery" where
  "sendBatchToClient ws readyState now send_ok tm =
     (case map_of (connectedClients tm) ws of
        None \<Rightarrow> (tm\<lparr>connectedClients := AList.delete ws (connectedClients tm)\<rparr>, Nothing)
      | Some ci \<Rightarrow>
          if readyState \<noteq> 1
          then (tm\<lparr>connectedClients := AList.delete ws (connectedClients tm)\<rparr>, Nothing)
          else if now \<ge> nextBatchTime ci then
            (if length (queueBacklog ci) > 0 then
               (let n = min (length (queueBacklog ci)) (batchSize ci);
                    batch = take n (queueBacklog ci);
                    tm1 = tm\<lparr>connectedClients :=
                              AList.update ws (ci\<lparr>queueBacklog := drop n (queueBacklog ci)\<rparr>)
                                (connectedClients tm)\<rparr>
                in if send_ok then (schedule_next ws now tm1, Sent batch)
                   else (tm1\<lparr>connectedClients := AList.delete ws (connectedClients tm1)\<rparr>,
                         SendThrew))
             else if length (transactionQueue tm) > 0 then
               (let n = min (length (transactionQueue tm)) (batchSize ci);
                    batch = take n (transactionQueue tm);
                    tm1 = tm\<lparr>transactionQueue := drop n (transactionQueue tm)\<rparr>
                in if send_ok then
                     (schedule_next ws now
                        (tm1\<lparr>connectedClients :=
                               map (\<lambda>(otherWs, otherClientInfo).
                                      if otherWs \<noteq> ws
                                      then (otherWs, otherClientInfo\<lparr>queueBacklog :=
                                              push_backlog batch (queueBacklog otherClientInfo)\<rparr>)
                                      else (otherWs, otherClientInfo))
                                   (connectedClients tm1)\<rparr>),
                      Sent batch)
                   else (tm1\<lparr>connectedClients := AList.delete ws (connectedClients tm1)\<rparr>,
                         SendThrew))
             else (schedule_next ws now tm, Nothing))
          else (tm, Nothing))"

definition startStreaming :: "nat \<Rightarrow> nat \<Rightarrow> nat \<Rightarrow> int \<Rightarrow> bool \<Rightarrow> TransactionManager \<Rightarrow> TransactionManager \<times> payload option \<times> delivery" where
  "startStreaming ws clientId readyState now send_ok tm =
     (let tm1 = tm\<lparr>connectedClients :=
                    AList.update ws
                      \<lparr>client_id = clientId, batchSize = 10, nextBatchTime = now,
                       batchInterval = 100, queueBacklog = []\<rparr>
                      (connectedClients tm)\<rparr>;
          (tm2, req) = (if length (connectedClients tm1) = 1 then startPolling tm1
                        else (tm1, None));
          (tm3, d) = sendBatchToClient ws readyState now send_ok tm2
      in (tm3, req, d))"

definition removeClient :: "nat \<Rightarrow> TransactionManager \<Rightarrow> TransactionManager" where
  "removeClient ws tm =
     (let tm1 = tm\<lparr>connectedClients := AList.delete ws (connectedClients tm)\<rparr> in
      if length (connectedClients tm1) = 0
      then tm1\<lparr>pollInterval := False, transactionQueue := [], continuationToken := None\<rparr>
      else tm1)"

text \<open>
  The callbacks that the event loop interleaves: a connection, a delivery tick of a client,
  a close, a tick of the polling timer, and the answer to the request in flight (there
  is one only while \<open>isFetching\<close> holds). A run is any sequence of them from the
  manager as constructed. The timers themselves are not kept: a tick may come at any
  time, which covers every schedule that the timers can produce.
\<close>

datatype callback =
    Connect nat nat nat int bool
  | Tick nat nat int bool
  | Close nat
  | Poll
  | Answer nat response

fun step :: "callback \<Rightarrow> TransactionManager \<Rightarrow> TransactionManager" where
  "step (Connect ws clientId readyState now send_ok) tm =
     fst (startStreaming ws clientId readyState now send_ok tm)"
| "step (Tick ws readyState now send_ok) tm = fst (sendBatchToClient ws readyState now send_ok tm)"
| "step (Close ws) tm = removeClient ws tm"
| "step Poll tm = fst (fetchTransactions_call 200 tm)"
| "step (Answer now r) tm = (if isFetching tm then fetchTransactions_resume now r tm else tm)"

definition run :: "callback list \<Rightarrow> TransactionManager" where
  "run callbacks = fold step callbacks constructor"

subsection \<open>The oldest manager\<close>

text \<open>
  The oldest of the three managers (the one with the ports written out) differs in the
  part of \<open>fetchTransactions\<close> after the \<open>await\<close>: it has no \<open>maxQueueSize\<close> (the
  field is not read here), it names an unmapped key \<open>UnknownEvent\<close>, it takes the
  token of every answer that has events, and its \<open>catch\<close> block sets the token to
  \<open>null\<close>.
\<close>

definition format_transaction_oldest :: "nat \<Rightarrow> rpc_event \<Rightarrow> item" where
  "format_transaction_oldest now tx =
     \<lparr>item_event_name =
        (case at (keys tx) 0 of
           None \<Rightarrow> ''UnknownEvent''
         | Some h \<Rightarrow> (case EVENT_MAP h of None \<Rightarrow> ''UnknownEvent'' | Some n \<Rightarrow> n)),
      item_data = data tx, item_timestamp = now\<rparr>"

definition fetchTransactions_resume_oldest :: "nat \<Rightarrow> response \<Rightarrow> TransactionManager \<Rightarrow> TransactionManager" where
  "fetchTransactions_resume_oldest now r tm =
     (case r of
        Throws \<Rightarrow> tm\<lparr>continuationToken := None, isFetching := False\<rparr>
      | NoEvents \<Rightarrow> tm\<lparr>isFetching := False\<rparr>
      | Events transactions token \<Rightarrow>
          tm\<lparr>continuationToken := token,
             transactionQueue :=
               transactionQueue tm @ map (format_transaction_oldest now) transactions,
             isFetching := False\<rparr>)"

section \<open>Queries and auxiliary notions\<close>

text \<open>\<open>Bot.findOne({bot_address})\<close> and \<open>Mine.find({bot_address, location})\<close>.\<close>

definition Bot_findOne :: "string option \<Rightarrow> db \<Rightarrow> bot option" where
  "Bot_findOne a s = find (\<lambda>b. bot_address b = a) (Bot s)"

definition Mine_find :: "string option \<Rightarrow> string option \<Rightarrow> db \<Rightarrow> mine list" where
  "Mine_find a l s = filter (\<lambda>m. mine_key m = (a, l)) (Mine s)"

subsection \<open>The per-event mutator of the older script\<close>

text \<open>
  \<open>processEvent\<close> of \<open>pendingIngestion.js\<close> handles one event at a time, with
  \<open>findOne\<close>, \<open>create\<close>, \<open>save\<close> and \<open>updateOne\<close>: it returns at once on a key that
  is not in the event map; it adds the 10 points of TileMined only when it has created the
  Mine document; and it creates a new Mine document for DiamondFound and BombFound, and a
  new Bot document for SpawnedBot, whatever the collections hold. It is kept here to
  compare it with the batch mutator; it writes no journal.
\<close>

definition processEvent :: "event \<Rightarrow> db \<Rightarrow> db" where
  "processEvent e s =
     (case ev_key e of
        None \<Rightarrow> s
      | Some key \<Rightarrow>
         (case EVENT_MAP key of
            None \<Rightarrow> s
          | Some name \<Rightarrow>
             (let bot_address = at (ev_data e) 0;
                  location = at (ev_data e) 2;
                  s1 =
                    (if key = TileMined_hash then
                       (if Mine_find bot_address location s = [] then
                          s\<lparr>Mine := Mine s @ [\<lparr>mine_bot_address = bot_address, location = location,
                                                mine_type = ''Empty'',
                                                mine_timestamp = ev_timestamp e\<rparr>],
                            Bot := bot_updateOne (IncScore bot_address 10) (Bot s)\<rparr>
                        else s)
                     else if key = DiamondFound_hash then
                       s\<lparr>Mine := Mine s @ [\<lparr>mine_bot_address = bot_address, location = location,
                                             mine_type = ''Diamond'',
                                             mine_timestamp = ev_timestamp e\<rparr>],
                         Bot := bot_updateOne (IncScore bot_address 5000) (Bot s)\<rparr>
                     else if key = BombFound_hash then
                       s\<lparr>Mine := Mine s @ [\<lparr>mine_bot_address = bot_address,
                                             location = at (ev_data e) 1, mine_type = ''Bomb'',
                                             mine_timestamp = ev_timestamp e\<rparr>],
                         Bot := bot_updateOne (SetStatus bot_address ''dead'') (Bot s)\<rparr>
                     else if key = SpawnedBot_hash then
                       s\<lparr>Bot := Bot s @ [\<lparr>bot_address = bot_address, player = at (ev_data e) 1,
                                           status = ''alive'', score = 0,
                                           starting_tile = at (ev_data e) 2\<rparr>]\<rparr>
                     else s)
              in s1\<lparr>Transaction := Transaction s1 @
                     [\<lparr>tx_block = ev_block e, event_name = name, event_hash = Some key,
                       tx_data = ev_data e, tx_timestamp = ev_timestamp e\<rparr>]\<rparr>)))"

abbreviation transfer_event :: event where
  "transfer_event \<equiv>
     \<lparr>ev_block = 3, ev_key = Some ''0x99'', ev_data = [''0xa''], ev_timestamp = 9\<rparr>"

text \<open>A bot document with its score blanked, to compare agents apart from the score.\<close>

definition unscored :: "bot \<Rightarrow> bot" where
  "unscored b = b\<lparr>score := 0\<rparr>"

fun is_spawn :: "bot_op \<Rightarrow> bool" where
  "is_spawn (UpsertSpawn a p t) = True"
| "is_spawn _ = False"

fun scoreless :: "bot_op \<Rightarrow> bool" where
  "scoreless (IncScore a n) = (n = 0)"
| "scoreless _ = True"

fun zero_inc :: "bot_op \<Rightarrow> bot_op" where
  "zero_inc (IncScore a n) = IncScore a 0"
| "zero_inc op = op"

text \<open>Example data: an empty store with one bot, and two events of that bot.\<close>

abbreviation example_bot :: bot where
  "example_bot \<equiv>
     \<lparr>bot_address = Some ''0xa'', player = Some ''0xb'', status = ''alive'', score = 0,
      starting_tile = Some ''0x1''\<rparr>"

abbreviation example_store :: db where
  "example_store \<equiv>
     \<lparr>Bot = [example_bot], Mine = [], Transaction = [], Checkpoint = None, journal = []\<rparr>"

abbreviation tile_mined :: event where
  "tile_mined \<equiv>
     \<lparr>ev_block = 3, ev_key = Some TileMined_hash, ev_data = [''0xa'', ''0x0'', ''0x3''],
      ev_timestamp = 5\<rparr>"

abbreviation diamond_found :: event where
  "diamond_found \<equiv>
     \<lparr>ev_block = 3, ev_key = Some DiamondFound_hash, ev_data = [''0xa'', ''0x0'', ''0x3''],
      ev_timestamp = 7\<rparr>"

text \<open>The block that a journal entry belongs to; a journal in which no batch write of a
  block follows the checkpoint write of that block; and the invariant of a run of the
  ingestion loop on the part of the journal written since the run began (\<open>J\<close> is the
  journal and \<open>c\<close> the checkpoint at the start, \<open>hi\<close> the last block visited).\<close>

fun block_of :: "store_write \<Rightarrow> nat" where
  "block_of (BotsWritten b) = b"
| "block_of (MinesWritten b) = b"
| "block_of (TransactionsWritten b) = b"
| "block_of (CheckpointWritten b) = b"

fun checkpoint_last :: "store_write list \<Rightarrow> bool" where
  "checkpoint_last [] = True"
| "checkpoint_last (CheckpointWritten b # ws) =
     (list_all (\<lambda>x. \<not> batch_write_of b x) ws \<and> checkpoint_last ws)"
| "checkpoint_last (w # ws) = checkpoint_last ws"

definition run_inv :: "store_write list \<Rightarrow> nat \<Rightarrow> nat \<Rightarrow> db \<Rightarrow> bool" where
  "run_inv J c hi s =
     (let new = drop (length J) (journal s) in
      take (length J) (journal s) = J \<and> checkpoint_last new
      \<and> list_all (\<lambda>x. block_of x \<le> hi) new
      \<and> sorted (c # checkpoints new)
      \<and> getLastProcessedBlock s = last (c # checkpoints new)
      \<and> last (c # checkpoints new) \<le> hi)"

text \<open>Example data: a ledger whose first scan fails and whose later scans each give one
  page with one TileMined event; and a run state whose checkpoint is block 0.\<close>

abbreviation example_rpc :: "nat \<Rightarrow> nat \<Rightarrow> page list" where
  "example_rpc \<equiv> \<lambda>n b.
     if n = 0 then [PageError]
     else [Page [\<lparr>keys = [TileMined_hash], data = [''0xa'', ''0x0'', ''0x3'']\<rparr>] None 5]"

abbreviation example_ingest :: ingest where
  "example_ingest \<equiv> \<lparr>store = example_store\<lparr>Checkpoint := Some 0\<rparr>, scanned = []\<rparr>"

text \<open>Example data: a ledger whose every scan gives one empty page; and a run state whose
  checkpoint is block 5.\<close>

abbreviation quiet_rpc :: "nat \<Rightarrow> nat \<Rightarrow> page list" where
  "quiet_rpc \<equiv> \<lambda>n b. [Page [] None 0]"

abbreviation ingest_at_five :: ingest where
  "ingest_at_five \<equiv> \<lparr>store = example_store\<lparr>Checkpoint := Some 5\<rparr>, scanned = []\<rparr>"

text \<open>Every backlog of a manager is within the cap.\<close>

definition backlogs_capped :: "TransactionManager \<Rightarrow> bool" where
  "backlogs_capped tm = list_all (\<lambda>(ws, ci). length (queueBacklog ci) \<le> 1000) (connectedClients tm)"

text \<open>Example data: two pending events and the items made of them at time 5; a run in
  which two clients connect and a page of two events is answered; and a run in which one
  client connects and a page of 6000 events is answered.\<close>

abbreviation pending_tile :: rpc_event where
  "pending_tile \<equiv> \<lparr>keys = [TileMined_hash], data = [''0xa'', ''0x0'', ''0x3'']\<rparr>"

abbreviation pending_other :: rpc_event where
  "pending_other \<equiv> \<lparr>keys = [''0x99''], data = [''0xa'']\<rparr>"

abbreviation item_tile :: item where
  "item_tile \<equiv>
     \<lparr>item_event_name = ''TileMined'', item_data = [''0xa'', ''0x0'', ''0x3''], item_timestamp = 5\<rparr>"

abbreviation item_other :: item where
  "item_other \<equiv> \<lparr>item_event_name = ''TransferEvent'', item_data = [''0xa''], item_timestamp = 5\<rparr>"

abbreviation two_clients :: "callback list" where
  "two_clients \<equiv>
     [Connect 1 1 1 0 True, Connect 2 2 1 0 True,
      Answer 5 (Events [pending_tile, pending_other] (Some ''t1''))]"

abbreviation flood :: "callback list" where
  "flood \<equiv> [Connect 1 1 1 0 True, Answer 5 (Events (replicate 6000 pending_tile) (Some ''t1''))]"

text \<open>Example data: what \<open>startStreaming\<close> stores for the two clients of the example
  run, after their first delivery tick.\<close>

abbreviation client1 :: clientInfo where
  "client1 \<equiv> \<lparr>client_id = 1, batchSize = 10, nextBatchTime = 100, batchInterval = 100,
               queueBacklog = []\<rparr>"


section \<open>The batch mutator: what one call writes\<close>

lemma hash_distinct:
  "TileMined_hash \<noteq> DiamondFound_hash" "TileMined_hash \<noteq> BombFound_hash"
  "TileMined_hash \<noteq> SpawnedBot_hash" "DiamondFound_hash \<noteq> BombFound_hash"
  "DiamondFound_hash \<noteq> SpawnedBot_hash" "BombFound_hash \<noteq> SpawnedBot_hash"
  by (simp_all add: TileMined_hash_def DiamondFound_hash_def BombFound_hash_def
      SpawnedBot_hash_def)

lemmas hash_neq = hash_distinct hash_distinct [symmetric]

lemma Bot_write_if:
  "(if ops \<noteq> [] then Bot_bulkWrite n ops s else s) =
     s\<lparr>Bot := fold bot_updateOne ops (Bot s),
       journal := journal s @ (if ops \<noteq> [] then [BotsWritten n] else [])\<rparr>"
  by (cases "ops = []") (simp_all add: Bot_bulkWrite_def)

lemma Mine_write_if:
  "(if ops \<noteq> [] then Mine_bulkWrite n ops s else s) =
     s\<lparr>Mine := fold mine_updateOne ops (Mine s),
       journal := journal s @ (if ops \<noteq> [] then [MinesWritten n] else [])\<rparr>"
  by (cases "ops = []") (simp_all add: Mine_bulkWrite_def)

lemma Transaction_write_if:
  "(if docs \<noteq> [] then Transaction_bulkWrite n docs s else s) =
     s\<lparr>Transaction := Transaction s @ docs,
       journal := journal s @ (if docs \<noteq> [] then [TransactionsWritten n] else [])\<rparr>"
  by (cases "docs = []") (simp_all add: Transaction_bulkWrite_def)

lemma processEventsBatch_eq:
  "processEventsBatch events blockNumber s =
     s\<lparr>Bot := fold bot_updateOne (concat (map bulkBots_of events)) (Bot s),
       Mine := fold mine_updateOne (concat (map bulkMines_of events)) (Mine s),
       Transaction := Transaction s @ map (bulkTransactions_of blockNumber) events,
       journal := journal s
         @ (if concat (map bulkBots_of events) \<noteq> [] then [BotsWritten blockNumber] else [])
         @ (if concat (map bulkMines_of events) \<noteq> [] then [MinesWritten blockNumber] else [])
         @ (if events \<noteq> [] then [TransactionsWritten blockNumber] else [])\<rparr>"
  unfolding processEventsBatch_def Let_def Bot_write_if Mine_write_if Transaction_write_if
  by simp

section \<open>Replaying mine operations\<close>

lemma mine_key_update: "mine_key m = mine_filter op \<Longrightarrow> mine_key (mine_update op m) = mine_filter op"
  by (cases op) (auto simp: mine_key_def)

lemma mine_key_doc: "mine_key (mine_doc op) = mine_filter op"
  by (cases op) (auto simp: mine_key_def)

lemma keys_updateOne:
  "mine_key ` set (mine_updateOne op ms) = insert (mine_filter op) (mine_key ` set ms)"
  by (induction ms) (auto simp: mine_key_update mine_key_doc)

lemma updateOne_idem: "mine_updateOne a (mine_updateOne a ms) = mine_updateOne a ms"
  by (induction ms) (cases a; auto simp: mine_key_def)+

lemma updateOne_append:
  "mine_filter b \<in> mine_key ` set ms \<Longrightarrow> mine_updateOne b (ms @ zs) = mine_updateOne b ms @ zs"
  by (induction ms) auto

lemma updateOne_absent:
  "mine_filter b \<notin> mine_key ` set ms \<Longrightarrow> mine_updateOne b ms = ms @ [mine_doc b]"
  by (induction ms) auto

lemma updateOne_SetOnInsert_present:
  "(a, l) \<in> mine_key ` set ms \<Longrightarrow> mine_updateOne (SetOnInsert a l t ts) ms = ms"
  by (induction ms) auto


lemma keys_fold:
  "mine_key ` set (fold mine_updateOne ops ms) = mine_key ` set ms \<union> mine_filter ` set ops"
  by (induction ops arbitrary: ms) (simp_all add: keys_updateOne)

lemma fold_append:
  "mine_filter ` set G \<subseteq> mine_key ` set Y
   \<Longrightarrow> fold mine_updateOne G (Y @ Z) = fold mine_updateOne G Y @ Z"
proof (induction G arbitrary: Y)
  case Nil
  then show ?case by simp
next
  case (Cons b G)
  have "mine_filter ` set G \<subseteq> mine_key ` set (mine_updateOne b Y)"
    using Cons.prems by (auto simp: keys_updateOne)
  then show ?case using Cons.prems Cons.IH by (simp add: updateOne_append)
qed

lemma same_key_force:
  "mine_filter b = (a, l)
   \<Longrightarrow> mine_updateOne (ForceSet a l t ts) (mine_updateOne b Y) = mine_updateOne (ForceSet a l t ts) Y"
  by (induction Y) (cases b; auto simp: mine_key_def)+

lemma updateOne_commute:
  "mine_filter a \<noteq> mine_filter b \<Longrightarrow> mine_filter a \<in> mine_key ` set Y
   \<Longrightarrow> mine_updateOne a (mine_updateOne b Y) = mine_updateOne b (mine_updateOne a Y)"
proof (induction Y)
  case Nil
  then show ?case by simp
next
  case (Cons m Y)
  show ?case
  proof (cases "mine_key m = mine_filter a")
    case True
    then show ?thesis using Cons.prems by (simp add: mine_key_update)
  next
    case False
    then have "mine_filter a \<in> mine_key ` set Y" using Cons.prems by auto
    then show ?thesis using False Cons.IH Cons.prems by (simp add: mine_key_update)
  qed
qed

lemma absorb:
  "mine_filter a \<in> mine_key ` set X
   \<Longrightarrow> mine_updateOne a (fold mine_updateOne G (mine_updateOne a X))
       = mine_updateOne a (fold mine_updateOne G X)"
proof (induction G rule: rev_induct)
  case Nil
  then show ?case by (simp add: updateOne_idem)
next
  case (snoc b G)
  let ?L = "fold mine_updateOne G (mine_updateOne a X)"
  let ?R = "fold mine_updateOne G X"
  have inL: "mine_filter a \<in> mine_key ` set ?L" by (simp add: keys_fold keys_updateOne)
  have inR: "mine_filter a \<in> mine_key ` set ?R" using snoc.prems by (simp add: keys_fold)
  show ?case
  proof (cases "mine_filter a = mine_filter b")
    case False
    have "mine_updateOne a (mine_updateOne b ?L) = mine_updateOne b (mine_updateOne a ?L)"
      using False inL by (rule updateOne_commute)
    also have "\<dots> = mine_updateOne b (mine_updateOne a ?R)" using snoc by simp
    also have "\<dots> = mine_updateOne a (mine_updateOne b ?R)"
      using False inR by (rule updateOne_commute [symmetric])
    finally show ?thesis by simp
  next
    case True
    show ?thesis
    proof (cases a)
      case (ForceSet x l t ts)
      then have k: "mine_filter b = (x, l)" using True by simp
      show ?thesis using snoc ForceSet by (simp add: same_key_force [OF k])
    next
      case (SetOnInsert x l t ts)
      then have "mine_updateOne a X = X" using snoc.prems
        by (simp add: updateOne_SetOnInsert_present)
      then show ?thesis by simp
    qed
  qed
qed

lemma fold_mine_updateOne_twice:
  "fold mine_updateOne ops (fold mine_updateOne ops X) = fold mine_updateOne ops X"
proof (induction ops arbitrary: X rule: rev_induct)
  case Nil
  then show ?case by simp
next
  case (snoc a G)
  let ?Y = "fold mine_updateOne G X"
  show ?case
  proof (cases "mine_filter a \<in> mine_key ` set ?Y")
    case True
    have "mine_updateOne a (fold mine_updateOne G (mine_updateOne a ?Y))
          = mine_updateOne a (fold mine_updateOne G ?Y)"
      using True by (rule absorb)
    then show ?thesis using snoc by simp
  next
    case False
    then have Y': "mine_updateOne a ?Y = ?Y @ [mine_doc a]" by (rule updateOne_absent)
    have sub: "mine_filter ` set G \<subseteq> mine_key ` set ?Y" by (auto simp: keys_fold)
    have "fold mine_updateOne G (?Y @ [mine_doc a]) = fold mine_updateOne G ?Y @ [mine_doc a]"
      using sub by (rule fold_append)
    then have "fold mine_updateOne G (mine_updateOne a ?Y) = mine_updateOne a ?Y"
      using snoc Y' by simp
    then show ?thesis by (simp add: updateOne_idem)
  qed
qed

section \<open>Replaying bot operations\<close>

lemma bot_keys_updateOne:
  "bot_address ` set (bot_updateOne op Z) =
     (if is_spawn op then insert (bot_filter op) (bot_address ` set Z) else bot_address ` set Z)"
  by (induction Z) (cases op; auto)+

lemma bot_idem: "scoreless a \<Longrightarrow> bot_updateOne a (bot_updateOne a Z) = bot_updateOne a Z"
  by (induction Z) (cases a; auto)+

lemma spawn_absorb:
  "bot_filter b = x \<Longrightarrow>
   bot_updateOne (UpsertSpawn x p t) (bot_updateOne b Z) = bot_updateOne (UpsertSpawn x p t) Z"
  by (induction Z) (cases b; auto)+

lemma status_absorb:
  "bot_filter b = x \<Longrightarrow> \<not> is_spawn b \<Longrightarrow> scoreless b \<Longrightarrow>
   bot_updateOne (SetStatus x s) (bot_updateOne b Z) = bot_updateOne (SetStatus x s) Z"
  by (induction Z) (cases b; auto)+

lemma spawn_after_status:
  "bot_updateOne (UpsertSpawn x p t) (bot_updateOne (SetStatus x s) Z) = bot_updateOne (UpsertSpawn x p t) Z"
  by (rule spawn_absorb) simp

lemma bot_filter_update: "bot_address b = bot_filter op \<Longrightarrow> bot_address (bot_update op b) = bot_filter op"
  by (cases op) auto

lemma bot_commute:
  "bot_filter a \<noteq> bot_filter b \<Longrightarrow> \<not> is_spawn a \<or> bot_filter a \<in> bot_address ` set Z
   \<Longrightarrow> bot_updateOne a (bot_updateOne b Z) = bot_updateOne b (bot_updateOne a Z)"
proof (induction Z)
  case Nil
  then show ?case by (cases a; cases b; auto)
next
  case (Cons m Z)
  show ?case
  proof (cases "bot_address m = bot_filter a")
    case True
    then show ?thesis using Cons.prems by (simp add: bot_filter_update)
  next
    case False
    then have "\<not> is_spawn a \<or> bot_filter a \<in> bot_address ` set Z" using Cons.prems by auto
    then show ?thesis using False Cons.IH Cons.prems by (simp add: bot_filter_update)
  qed
qed

lemma inc0: "bot_updateOne (IncScore x 0) Z = Z"
  by (induction Z) auto

lemma absent_noninsert:
  "\<not> is_spawn a \<Longrightarrow> bot_filter a \<notin> bot_address ` set Z \<Longrightarrow> bot_updateOne a Z = Z"
  by (induction Z) (cases a; auto)+

lemma absent_spawn:
  "bot_filter a \<notin> bot_address ` set Z \<Longrightarrow> bot_updateOne a Z = Z @ bot_insert a"
  by (induction Z) auto

lemma bot_present_append:
  "bot_filter b \<in> bot_address ` set Z \<Longrightarrow> bot_updateOne b (Z @ W) = bot_updateOne b Z @ W"
  by (induction Z) auto

lemma bot_absent_append:
  "bot_filter b \<notin> bot_address ` set Z \<Longrightarrow> \<not> is_spawn b
   \<Longrightarrow> bot_updateOne b (Z @ [d]) = Z @ [if bot_address d = bot_filter b then bot_update b d else d]"
  by (induction Z) (cases b; auto)+


lemma bot_keys_fold:
  "bot_address ` set (fold bot_updateOne G Z) =
     bot_address ` set Z \<union> bot_filter ` {b \<in> set G. is_spawn b}"
  by (induction G arbitrary: Z) (auto simp: bot_keys_updateOne)

lemma bot_fold_append_one:
  "\<forall>b\<in>set G. is_spawn b \<longrightarrow> bot_filter b \<in> bot_address ` set Z
   \<Longrightarrow> \<exists>d'. bot_address d' = bot_address d
          \<and> fold bot_updateOne G (Z @ [d]) = fold bot_updateOne G Z @ [d']"
proof (induction G arbitrary: Z d)
  case Nil
  then show ?case by simp
next
  case (Cons b G)
  have sp: "\<forall>c\<in>set G. is_spawn c \<longrightarrow> bot_filter c \<in> bot_address ` set (bot_updateOne b Z)"
    using Cons.prems by (auto simp: bot_keys_updateOne)
  show ?case
  proof (cases "bot_filter b \<in> bot_address ` set Z")
    case True
    then have "bot_updateOne b (Z @ [d]) = bot_updateOne b Z @ [d]"
      by (rule bot_present_append)
    then show ?thesis using Cons.IH [OF sp, of d] by simp
  next
    case False
    then have ns: "\<not> is_spawn b" using Cons.prems by auto
    let ?e = "if bot_address d = bot_filter b then bot_update b d else d"
    have e: "bot_address ?e = bot_address d" by (simp add: bot_filter_update)
    have "bot_updateOne b (Z @ [d]) = Z @ [?e]" using False ns by (rule bot_absent_append)
    moreover have "bot_updateOne b Z = Z" using ns False by (rule absent_noninsert)
    ultimately have "fold bot_updateOne (b # G) (Z @ [d]) = fold bot_updateOne G (bot_updateOne b Z @ [?e])"
      by simp
    then show ?thesis using Cons.IH [OF sp, of ?e] e by auto
  qed
qed

lemma bot_absorb:
  assumes G: "\<forall>b\<in>set G. scoreless b"
    and a: "scoreless a"
    and pres: "\<not> is_spawn a \<or> bot_filter a \<in> bot_address ` set X"
  shows "bot_updateOne a (fold bot_updateOne G (bot_updateOne a X))
       = bot_updateOne a (fold bot_updateOne G X)"
  using G
proof (induction G rule: rev_induct)
  case Nil
  then show ?case using a by (simp add: bot_idem)
next
  case (snoc b G)
  let ?L = "fold bot_updateOne G (bot_updateOne a X)"
  let ?R = "fold bot_updateOne G X"
  have IH: "bot_updateOne a ?L = bot_updateOne a ?R" using snoc by simp
  have b: "scoreless b" using snoc.prems by simp
  have inL: "\<not> is_spawn a \<or> bot_filter a \<in> bot_address ` set ?L"
    using pres by (auto simp: bot_keys_fold bot_keys_updateOne)
  have inR: "\<not> is_spawn a \<or> bot_filter a \<in> bot_address ` set ?R"
    using pres by (auto simp: bot_keys_fold)
  show ?case
  proof (cases "bot_filter a = bot_filter b")
    case False
    have "bot_updateOne a (bot_updateOne b ?L) = bot_updateOne b (bot_updateOne a ?L)"
      using False inL by (rule bot_commute)
    also have "\<dots> = bot_updateOne b (bot_updateOne a ?R)" using IH by simp
    also have "\<dots> = bot_updateOne a (bot_updateOne b ?R)"
      using False inR by (rule bot_commute [symmetric])
    finally show ?thesis by simp
  next
    case True
    show ?thesis
    proof (cases a)
      case (IncScore x n)
      then show ?thesis using a by (simp add: inc0)
    next
      case (UpsertSpawn x p t)
      have k: "bot_filter b = x" using True UpsertSpawn by simp
      show ?thesis using IH UpsertSpawn by (simp add: spawn_absorb [OF k])
    next
      case (SetStatus x s)
      have k: "bot_filter b = x" using True SetStatus by simp
      show ?thesis
      proof (cases "is_spawn b")
        case False
        show ?thesis using IH SetStatus by (simp add: status_absorb [OF k False b])
      next
        case True
        then obtain p t where bb: "b = UpsertSpawn x p t" using k by (cases b) auto
        have "bot_updateOne b ?L = bot_updateOne b (bot_updateOne a ?L)"
          unfolding bb SetStatus by (rule spawn_after_status [symmetric])
        also have "\<dots> = bot_updateOne b (bot_updateOne a ?R)" using IH by simp
        also have "\<dots> = bot_updateOne b ?R"
          unfolding bb SetStatus by (rule spawn_after_status)
        finally show ?thesis by simp
      qed
    qed
  qed
qed

lemma bot_absent_append_same:
  "bot_filter a \<notin> bot_address ` set Z \<Longrightarrow> bot_address d = bot_filter a
   \<Longrightarrow> bot_updateOne a (Z @ [d]) = Z @ [bot_update a d]"
  by (induction Z) auto

lemma spawn_doc: "bot_address d = x \<Longrightarrow> [bot_update (UpsertSpawn x p t) d] = bot_insert (UpsertSpawn x p t)"
  by simp

lemma fold_bot_updateOne_twice:
  "\<forall>b\<in>set ops. scoreless b
   \<Longrightarrow> fold bot_updateOne ops (fold bot_updateOne ops X) = fold bot_updateOne ops X"
proof (induction ops arbitrary: X rule: rev_induct)
  case Nil
  then show ?case by simp
next
  case (snoc a G)
  let ?Y = "fold bot_updateOne G X"
  have G: "\<forall>b\<in>set G. scoreless b" and a: "scoreless a" using snoc.prems by simp_all
  have IH: "\<And>Z. fold bot_updateOne G (fold bot_updateOne G Z) = fold bot_updateOne G Z"
    using snoc.IH G by simp
  show ?case
  proof (cases "\<not> is_spawn a \<or> bot_filter a \<in> bot_address ` set ?Y")
    case True
    have "bot_updateOne a (fold bot_updateOne G (bot_updateOne a ?Y))
          = bot_updateOne a (fold bot_updateOne G ?Y)"
      using G a True by (rule bot_absorb)
    then show ?thesis using IH by simp
  next
    case False
    then obtain x p t where aa: "a = UpsertSpawn x p t" by (cases a) auto
    have abs: "bot_filter a \<notin> bot_address ` set ?Y" using False by simp
    let ?d = "\<lparr>bot_address = x, player = p, status = ''alive'', score = 0, starting_tile = t\<rparr>"
    have Y': "bot_updateOne a ?Y = ?Y @ [?d]" using absent_spawn [OF abs] aa by simp
    have sp: "\<forall>b\<in>set G. is_spawn b \<longrightarrow> bot_filter b \<in> bot_address ` set ?Y"
      by (auto simp: bot_keys_fold)
    obtain d' where d': "bot_address d' = x"
      and f: "fold bot_updateOne G (?Y @ [?d]) = fold bot_updateOne G ?Y @ [d']"
      using bot_fold_append_one [OF sp, of ?d] by auto
    have "bot_updateOne a (?Y @ [d']) = ?Y @ [bot_update a d']"
      using abs d' aa by (simp add: bot_absent_append_same)
    then have "bot_updateOne a (fold bot_updateOne G (bot_updateOne a ?Y)) = ?Y @ [?d]"
      using Y' f IH d' aa by simp
    then show ?thesis using Y' by simp
  qed
qed

lemma unscored_updateOne:
  "map unscored (bot_updateOne op Z) = bot_updateOne (zero_inc op) (map unscored Z)"
  by (induction Z) (cases op; auto simp: unscored_def)+

lemma unscored_fold:
  "map unscored (fold bot_updateOne ops Z) = fold bot_updateOne (map zero_inc ops) (map unscored Z)"
  by (induction ops arbitrary: Z) (simp_all add: unscored_updateOne)

lemma scoreless_zero_inc: "scoreless (zero_inc op)"
  by (cases op) auto

lemma replay_bots_unscored:
  "map unscored (fold bot_updateOne ops (fold bot_updateOne ops X))
   = map unscored (fold bot_updateOne ops X)"
  unfolding unscored_fold
  by (rule fold_bot_updateOne_twice) (simp add: scoreless_zero_inc)

lemma fold_batches_Transaction:
  "Transaction (fold (\<lambda>(events, blockNumber). processEventsBatch events blockNumber) batches s)
   = Transaction s @ concat (map (\<lambda>(events, blockNumber). map (bulkTransactions_of blockNumber) events) batches)"
  by (induction batches arbitrary: s) (auto simp: processEventsBatch_eq)
lemma filter_mine_updateOne:
  "filter (\<lambda>m. mine_key m = mine_filter op) ms = [m0]
   \<Longrightarrow> filter (\<lambda>m. mine_key m = mine_filter op) (mine_updateOne op ms) = [mine_update op m0]
     \<and> length (mine_updateOne op ms) = length ms"
proof (induction ms)
  case Nil
  then show ?case by simp
next
  case (Cons m ms)
  then show ?case by (auto simp: mine_key_update split: if_splits)
qed

lemma find_bot_updateOne:
  "find (\<lambda>b. bot_address b = a) bs = Some b0
   \<Longrightarrow> find (\<lambda>b. bot_address b = a) (bot_updateOne (IncScore a n) bs) = Some (b0\<lparr>score := score b0 + n\<rparr>)"
  by (induction bs) (auto split: if_splits)

section \<open>Claims on the batch mutator\<close>

lemma map_key_updateOne:
  "map mine_key (mine_updateOne op ms) =
     (if mine_filter op \<in> mine_key ` set ms then map mine_key ms
      else map mine_key ms @ [mine_filter op])"
  by (induction ms) (auto simp: mine_key_update mine_key_doc)

lemma distinct_updateOne:
  "distinct (map mine_key ms) \<Longrightarrow> distinct (map mine_key (mine_updateOne op ms))"
  by (simp add: map_key_updateOne)

lemma distinct_fold_updateOne:
  "distinct (map mine_key ms) \<Longrightarrow> distinct (map mine_key (fold mine_updateOne ops ms))"
  by (induction ops arbitrary: ms) (simp_all add: distinct_updateOne)

lemma distinct_processEventsBatch:
  "distinct (map mine_key (Mine s))
   \<Longrightarrow> distinct (map mine_key (Mine (processEventsBatch events blockNumber s)))"
  by (simp add: processEventsBatch_eq distinct_fold_updateOne)

lemma filter_distinct_key:
  "distinct (map mine_key ms) \<Longrightarrow> m \<in> set ms
   \<Longrightarrow> filter (\<lambda>x. mine_key x = mine_key m) ms = [m]"
proof (induction ms)
  case Nil
  then show ?case by simp
next
  case (Cons x ms)
  show ?case
  proof (cases "x = m")
    case True
    have notin: "mine_key m \<notin> mine_key ` set ms" using Cons.prems(1) True by simp
    have "\<forall>y\<in>set ms. mine_key y \<noteq> mine_key m"
    proof
      fix y assume "y \<in> set ms"
      then have "mine_key y \<in> mine_key ` set ms" by (rule imageI)
      with notin show "mine_key y \<noteq> mine_key m" by metis
    qed
    then have "filter (\<lambda>y. mine_key y = mine_key m) ms = []"
      by (simp add: filter_empty_conv)
    then show ?thesis using True by simp
  next
    case False
    then have m: "m \<in> set ms" using Cons.prems(2) by simp
    then have "mine_key m \<in> mine_key ` set ms" by (rule imageI)
    then have "mine_key x \<noteq> mine_key m" using Cons.prems(1) by auto
    then show ?thesis using Cons.IH m Cons.prems(1) by simp
  qed
qed

lemma filter_mine_updateOne_absent:
  "filter (\<lambda>m. mine_key m = mine_filter op) ms = []
   \<Longrightarrow> filter (\<lambda>m. mine_key m = mine_filter op) (mine_updateOne op ms) = [mine_doc op]"
  by (induction ms) (auto simp: mine_key_doc split: if_splits)

lemma tile_mined_twice_one_row:
  assumes "ev_key e = Some TileMined_hash"
    and "Mine_find (at (ev_data e) 0) (at (ev_data e) 2) s = []"
  shows "Mine_find (at (ev_data e) 0) (at (ev_data e) 2) (processEventsBatch [e, e] blockNumber s)
         = [\<lparr>mine_bot_address = at (ev_data e) 0, location = at (ev_data e) 2,
             mine_type = ''Empty'', mine_timestamp = ev_timestamp e\<rparr>]"
proof -
  let ?a = "at (ev_data e) 0" and ?l = "at (ev_data e) 2"
  let ?op = "SetOnInsert ?a ?l ''Empty'' (ev_timestamp e)"
  have ops: "bulkMines_of e = [?op]"
    using assms(1) by (simp add: bulkMines_of_def)
  have f: "filter (\<lambda>m. mine_key m = mine_filter ?op) (Mine s) = []"
    using assms(2) by (simp add: Mine_find_def)
  have "(?a, ?l) \<in> mine_key ` set (mine_updateOne ?op (Mine s))"
    by (simp add: keys_updateOne)
  then have "mine_updateOne ?op (mine_updateOne ?op (Mine s)) = mine_updateOne ?op (Mine s)"
    by (rule updateOne_SetOnInsert_present)
  then show ?thesis
    using filter_mine_updateOne_absent [OF f]
    by (simp add: processEventsBatch_eq ops Mine_find_def)
qed

lemma ex_ops:
  "bulkBots_of tile_mined = [IncScore (Some ''0xa'') 10]"
  "bulkMines_of tile_mined = [SetOnInsert (Some ''0xa'') (Some ''0x3'') ''Empty'' 5]"
  "bulkBots_of diamond_found = [IncScore (Some ''0xa'') 5000]"
  "bulkMines_of diamond_found = [ForceSet (Some ''0xa'') (Some ''0x3'') ''Diamond'' 7]"
  by (simp_all add: bulkBots_of_def bulkMines_of_def at_def hash_neq)

text \<open>
  Claim C1, as amended. Applying the events of a block a second time leaves the Mine
  collection as the first application left it, and leaves every field of every Bot
  document other than the score as the first application left it. Two consecutive
  identical TileMined events for a pair (bot address, location) that has no Mine document
  leave exactly one Mine document for the pair, of type Empty. (Scores are not kept by a
  replay: the increment of DiamondFound is applied at every application.)
\<close>

theorem replay_block_idempotent_apart_from_score:
  "Mine (processEventsBatch events blockNumber (processEventsBatch events blockNumber s))
     = Mine (processEventsBatch events blockNumber s)
   \<and> map unscored (Bot (processEventsBatch events blockNumber (processEventsBatch events blockNumber s)))
     = map unscored (Bot (processEventsBatch events blockNumber s))
   \<and> (ev_key e = Some TileMined_hash
        \<and> Mine_find (at (ev_data e) 0) (at (ev_data e) 2) s = []
      \<longrightarrow> Mine_find (at (ev_data e) 0) (at (ev_data e) 2) (processEventsBatch [e, e] blockNumber s)
          = [\<lparr>mine_bot_address = at (ev_data e) 0, location = at (ev_data e) 2,
              mine_type = ''Empty'', mine_timestamp = ev_timestamp e\<rparr>])"
  using tile_mined_twice_one_row [of e s blockNumber]
  by (simp add: processEventsBatch_eq fold_mine_updateOne_twice replay_bots_unscored)

theorem replay_block_idempotent_apart_from_score_witness:
  "ev_key tile_mined = Some TileMined_hash
   \<and> Mine_find (Some ''0xa'') (Some ''0x3'') example_store = []
   \<and> Mine_find (Some ''0xa'') (Some ''0x3'') (processEventsBatch [tile_mined, tile_mined] 1 example_store)
     = [\<lparr>mine_bot_address = Some ''0xa'', location = Some ''0x3'', mine_type = ''Empty'',
         mine_timestamp = 5\<rparr>]
   \<and> Mine (processEventsBatch [tile_mined, diamond_found] 1
             (processEventsBatch [tile_mined, diamond_found] 1 example_store))
     = [\<lparr>mine_bot_address = Some ''0xa'', location = Some ''0x3'', mine_type = ''Diamond'',
         mine_timestamp = 7\<rparr>]"
  using replay_block_idempotent_apart_from_score
          [of "[tile_mined, diamond_found]" 1 example_store tile_mined]
  by (simp add: processEventsBatch_eq ex_ops Mine_find_def mine_key_def at_def)

text \<open>
  Claim C1 as stated fails. On a store with one bot of score 0, one DiamondFound event
  gives the score 5000 and the same event applied again gives 10000, so the Bot state
  after a replay is not the state after one application. Two identical TileMined events
  in one block give the score 20, not 10.
\<close>

theorem replay_changes_score:
  "map score (Bot (processEventsBatch [diamond_found] 1 example_store)) = [5000]
   \<and> map score (Bot (processEventsBatch [diamond_found] 1
                       (processEventsBatch [diamond_found] 1 example_store))) = [10000]
   \<and> map score (Bot (processEventsBatch [tile_mined, tile_mined] 1 example_store)) = [20]"
  by (simp add: processEventsBatch_eq ex_ops)

text \<open>
  Claim C2. For every list of events given to \<open>processEventsBatch\<close>, one Transaction
  document is inserted for each event, in order, whatever its key: the document keeps the
  key of its event, and its name is \<open>TransferEvent\<close> when the key is not in the event
  map. So after any sequence of batches the number of Transaction documents has grown by
  the number of events; and a call of \<open>fetchAndStoreEvents\<close> whose scan succeeds adds
  one document for each event scanned (none when the scan fails).
\<close>

theorem audit_record_per_event:
  "Transaction (processEventsBatch events blockNumber s)
     = Transaction s @ map (bulkTransactions_of blockNumber) events
   \<and> map event_hash (map (bulkTransactions_of blockNumber) events) = map ev_key events
   \<and> length (Transaction (fold (\<lambda>(events, blockNumber). processEventsBatch events blockNumber) batches s))
     = length (Transaction s) + sum_list (map (\<lambda>(events, blockNumber). length events) batches)
   \<and> Transaction (store (fetchAndStoreEvents rpc blockNumber w))
     = Transaction (store w)
       @ (case getEvents_loop blockNumber (rpc (length (scanned w)) blockNumber) [] of
            None \<Rightarrow> []
          | Some scan \<Rightarrow> map (bulkTransactions_of blockNumber) scan)"
proof -
  have "length (concat (map (\<lambda>(events, blockNumber). map (bulkTransactions_of blockNumber) events) batches))
        = sum_list (map (\<lambda>(events, blockNumber). length events) batches)"
    by (induction batches) auto
  moreover have "Transaction (store (fetchAndStoreEvents rpc blockNumber w))
     = Transaction (store w)
       @ (case getEvents_loop blockNumber (rpc (length (scanned w)) blockNumber) [] of
            None \<Rightarrow> []
          | Some scan \<Rightarrow> map (bulkTransactions_of blockNumber) scan)"
    by (simp add: fetchAndStoreEvents_def updateCheckpoint_def processEventsBatch_eq
        split: option.splits)
  ultimately show ?thesis
    by (simp add: processEventsBatch_eq fold_batches_Transaction bulkTransactions_of_def comp_def)
qed

text \<open>
  Claim C3. Take a store in which no two Mine documents have the same pair
  (bot address, location), which the batch mutator keeps so, and which holds a Mine
  document of type Empty for a pair and a Bot document with that address. A DiamondFound
  event whose \<open>data[0]\<close> and \<open>data[2]\<close> are that pair leaves exactly one Mine document
  for the pair, the same document now of type Diamond; no Mine document is added; and the
  score of the bot is 5000 higher.
\<close>

theorem reward_overwrites_empty_claim:
  assumes "ev_key e = Some DiamondFound_hash"
    and "distinct (map mine_key (Mine s))"
    and "m \<in> set (Mine s)"
    and "mine_key m = (at (ev_data e) 0, at (ev_data e) 2)"
    and "mine_type m = ''Empty''"
    and "Bot_findOne (at (ev_data e) 0) s = Some b"
  shows "Mine_find (at (ev_data e) 0) (at (ev_data e) 2) (processEventsBatch [e] blockNumber s)
           = [m\<lparr>mine_type := ''Diamond'', mine_timestamp := ev_timestamp e\<rparr>]
       \<and> distinct (map mine_key (Mine (processEventsBatch [e] blockNumber s)))
       \<and> length (Mine (processEventsBatch [e] blockNumber s)) = length (Mine s)
       \<and> Bot_findOne (at (ev_data e) 0) (processEventsBatch [e] blockNumber s)
           = Some (b\<lparr>score := score b + 5000\<rparr>)"
proof -
  let ?a = "at (ev_data e) 0" and ?l = "at (ev_data e) 2"
  let ?op = "ForceSet ?a ?l ''Diamond'' (ev_timestamp e)"
  have ops: "bulkMines_of e = [?op]" "bulkBots_of e = [IncScore ?a 5000]"
    using assms(1) by (simp_all add: bulkMines_of_def bulkBots_of_def hash_neq)
  have f: "filter (\<lambda>m. mine_key m = mine_filter ?op) (Mine s) = [m]"
    using filter_distinct_key [OF assms(2,3)] assms(4) by simp
  have u: "mine_update ?op m = m\<lparr>mine_type := ''Diamond'', mine_timestamp := ev_timestamp e\<rparr>"
    using assms(4) by (simp add: mine_key_def)
  show ?thesis
    using filter_mine_updateOne [OF f] u find_bot_updateOne [of ?a "Bot s" b 5000] assms(6)
      distinct_processEventsBatch [OF assms(2), of "[e]" blockNumber]
    by (simp add: processEventsBatch_eq ops Mine_find_def Bot_findOne_def)
qed

theorem reward_overwrites_empty_claim_witness:
  "distinct (map mine_key (Mine (processEventsBatch [tile_mined] 1 example_store)))
   \<and> Mine (processEventsBatch [tile_mined] 1 example_store)
     = [\<lparr>mine_bot_address = Some ''0xa'', location = Some ''0x3'', mine_type = ''Empty'',
         mine_timestamp = 5\<rparr>]
   \<and> Bot_findOne (Some ''0xa'') (processEventsBatch [tile_mined] 1 example_store)
     = Some (example_bot\<lparr>score := 10\<rparr>)
   \<and> Mine (processEventsBatch [diamond_found] 2 (processEventsBatch [tile_mined] 1 example_store))
     = [\<lparr>mine_bot_address = Some ''0xa'', location = Some ''0x3'', mine_type = ''Diamond'',
         mine_timestamp = 7\<rparr>]
   \<and> map score (Bot (processEventsBatch [diamond_found] 2
                       (processEventsBatch [tile_mined] 1 example_store))) = [5010]"
proof -
  let ?s = "processEventsBatch [tile_mined] 1 example_store"
  let ?m = "\<lparr>mine_bot_address = Some ''0xa'', location = Some ''0x3'', mine_type = ''Empty'',
         mine_timestamp = 5\<rparr>"
  have k: "ev_key diamond_found = Some DiamondFound_hash" by simp
  have M: "Mine ?s = [?m]" by (simp add: processEventsBatch_eq ex_ops)
  have d: "distinct (map mine_key (Mine ?s))" unfolding M by simp
  have i: "?m \<in> set (Mine ?s)" unfolding M by simp
  have mk: "mine_key ?m = (at (ev_data diamond_found) 0, at (ev_data diamond_found) 2)"
    by (simp add: mine_key_def at_def)
  have t: "mine_type ?m = ''Empty''" by simp
  have b: "Bot_findOne (at (ev_data diamond_found) 0) ?s = Some (example_bot\<lparr>score := 10\<rparr>)"
    by (simp add: processEventsBatch_eq ex_ops Bot_findOne_def at_def)
  show ?thesis
    using reward_overwrites_empty_claim [OF k d i mk t b, of 2] d M b
    by (simp add: processEventsBatch_eq ex_ops Mine_find_def mine_key_def at_def Bot_findOne_def)
qed

section \<open>The older script compared\<close>

text \<open>
  On the example store, the per-event mutator adds the points of two identical TileMined
  events once and keeps one Mine document; it adds a second Mine document for a
  DiamondFound on a pair that has an Empty one; and it stores nothing for an event whose
  key is not in the event map.
\<close>

lemma EVENT_MAP_examples:
  "EVENT_MAP TileMined_hash = Some ''TileMined''"
  "EVENT_MAP DiamondFound_hash = Some ''DiamondFound''"
  "EVENT_MAP ''0x99'' = None"
  by (simp_all add: EVENT_MAP_def hash_neq SpawnedBot_hash_def TileMined_hash_def
      BombFound_hash_def DiamondFound_hash_def TileAlreadyMined_hash_def SuspendBot_hash_def
      ReviveBot_hash_def)

lemma processEvent_examples:
  "map score (Bot (processEvent tile_mined (processEvent tile_mined example_store))) = [10]"
  "map mine_type (Mine (processEvent tile_mined (processEvent tile_mined example_store))) = [''Empty'']"
  "map mine_type (Mine (processEvent diamond_found (processEvent tile_mined example_store)))
     = [''Empty'', ''Diamond'']"
  "processEvent transfer_event example_store = example_store"
  by (simp_all add: processEvent_def EVENT_MAP_examples Mine_find_def mine_key_def at_def hash_neq
      Let_def)

section \<open>The ingestion loop\<close>

lemma checkpoints_append: "checkpoints (xs @ ys) = checkpoints xs @ checkpoints ys"
  by (induction xs rule: checkpoints.induct) auto

lemma checkpoints_block: "set (checkpoints xs) \<subseteq> block_of ` set xs"
  by (induction xs rule: checkpoints.induct) auto

lemma batch_write_block: "batch_write_of b x \<Longrightarrow> block_of x = b"
  by (cases x) auto

lemma checkpoint_last_append:
  "checkpoint_last xs \<Longrightarrow> checkpoint_last ys
   \<Longrightarrow> \<forall>b. CheckpointWritten b \<in> set xs \<longrightarrow> (\<forall>y\<in>set ys. \<not> batch_write_of b y)
   \<Longrightarrow> checkpoint_last (xs @ ys)"
  by (induction xs rule: checkpoint_last.induct) (auto simp: list_all_iff)

lemma checkpoint_last_split:
  "checkpoint_last new \<Longrightarrow> new = xs @ CheckpointWritten b # ys
   \<Longrightarrow> \<forall>x\<in>set ys. \<not> batch_write_of b x"
proof (induction xs arbitrary: new)
  case Nil
  then show ?case by (auto simp: list_all_iff)
next
  case (Cons x xs)
  then have "checkpoint_last (xs @ CheckpointWritten b # ys)" by (cases x) auto
  then show ?case using Cons.IH by blast
qed

text \<open>The journal entries of one call.\<close>

lemma journal_processEventsBatch:
  "\<exists>seg. journal (processEventsBatch events b s) = journal s @ seg
         \<and> list_all (batch_write_of b) seg"
  by (simp add: processEventsBatch_eq)

lemma checkpoint_last_batch: "list_all (batch_write_of b) seg \<Longrightarrow> checkpoint_last seg"
  by (induction seg rule: checkpoint_last.induct) auto

lemma checkpoints_batch: "list_all (batch_write_of b) seg \<Longrightarrow> checkpoints seg = []"
  by (induction seg rule: checkpoints.induct) auto

lemma journal_fetchAndStoreEvents:
  "\<exists>seg. journal (store (fetchAndStoreEvents rpc b w)) = journal (store w) @ seg
        \<and> list_all (\<lambda>x. block_of x = b) seg \<and> checkpoint_last seg
        \<and> (checkpoints seg = [] \<and> Checkpoint (store (fetchAndStoreEvents rpc b w)) = Checkpoint (store w)
           \<or> checkpoints seg = [b] \<and> Checkpoint (store (fetchAndStoreEvents rpc b w)) = Some b)"
proof (cases "getEvents_loop b (rpc (length (scanned w)) b) []")
  case None
  then show ?thesis by (simp add: fetchAndStoreEvents_def)
next
  case (Some events)
  obtain seg where seg: "journal (processEventsBatch events b (store w)) = journal (store w) @ seg"
    "list_all (batch_write_of b) seg"
    using journal_processEventsBatch by blast
  let ?seg = "(if events \<noteq> [] then seg else []) @ [CheckpointWritten b]"
  have bw: "list_all (batch_write_of b) (if events \<noteq> [] then seg else [])" using seg by simp
  have 1: "journal (store (fetchAndStoreEvents rpc b w)) = journal (store w) @ ?seg"
    using Some seg by (simp add: fetchAndStoreEvents_def updateCheckpoint_def)
  have 2: "list_all (\<lambda>x. block_of x = b) ?seg"
    using bw by (auto simp: list_all_iff batch_write_block)
  have 3: "checkpoint_last ?seg"
    using checkpoint_last_batch [OF bw]
    by (intro checkpoint_last_append) (auto simp: list_all_iff dest: batch_write_block)
  have 4: "checkpoints ?seg = [b]"
    using checkpoints_batch [OF bw] by (simp add: checkpoints_append)
  have 5: "Checkpoint (store (fetchAndStoreEvents rpc b w)) = Some b"
    using Some by (simp add: fetchAndStoreEvents_def updateCheckpoint_def)
  show ?thesis using 1 2 3 4 5 by blast
qed

lemma sorted_le_last: "sorted xs \<Longrightarrow> (x::nat) \<in> set xs \<Longrightarrow> x \<le> last xs"
  by (induction xs) auto

lemma sorted_snoc_le: "sorted xs \<Longrightarrow> \<forall>x\<in>set xs. x \<le> (b::nat) \<Longrightarrow> sorted (xs @ [b])"
  by (simp add: sorted_append)

lemma run_inv_step:
  assumes "run_inv J c hi (store w)" and "hi < b"
  shows "run_inv J c b (store (fetchAndStoreEvents rpc b w))"
proof -
  let ?w' = "fetchAndStoreEvents rpc b w"
  obtain seg where seg: "journal (store ?w') = journal (store w) @ seg"
    "list_all (\<lambda>x. block_of x = b) seg" "checkpoint_last seg"
    "checkpoints seg = [] \<and> Checkpoint (store ?w') = Checkpoint (store w)
     \<or> checkpoints seg = [b] \<and> Checkpoint (store ?w') = Some b"
    using journal_fetchAndStoreEvents by blast
  let ?new = "drop (length J) (journal (store w))"
  have J: "take (length J) (journal (store w)) = J" and cl: "checkpoint_last ?new"
    and blocks: "list_all (\<lambda>x. block_of x \<le> hi) ?new"
    and srt: "sorted (c # checkpoints ?new)"
    and cur: "getLastProcessedBlock (store w) = last (c # checkpoints ?new)"
    and le: "last (c # checkpoints ?new) \<le> hi"
    using assms(1) by (simp_all add: run_inv_def Let_def)
  have len: "length J \<le> length (journal (store w))"
  proof -
    have "length J = min (length (journal (store w))) (length J)"
      using J by (metis length_take)
    then show ?thesis by arith
  qed
  have new': "drop (length J) (journal (store ?w')) = ?new @ seg" using seg(1) len by simp
  have J': "take (length J) (journal (store ?w')) = J" using seg(1) len J by simp
  have cl': "checkpoint_last (?new @ seg)"
  proof (rule checkpoint_last_append [OF cl seg(3)], intro allI impI ballI)
    fix d y assume d: "CheckpointWritten d \<in> set ?new" and y: "y \<in> set seg"
    have "d \<le> hi" using d blocks by (force simp: list_all_iff)
    moreover have "block_of y = b" using y seg(2) by (simp add: list_all_iff)
    ultimately show "\<not> batch_write_of d y" using assms(2) batch_write_block by fastforce
  qed
  have blocks': "list_all (\<lambda>x. block_of x \<le> b) (?new @ seg)"
    using blocks seg(2) assms(2) by (auto simp: list_all_iff)
  have all_le: "\<forall>x\<in>set (c # checkpoints ?new). x \<le> b"
  proof
    fix x assume "x \<in> set (c # checkpoints ?new)"
    with srt have "x \<le> last (c # checkpoints ?new)"
      by (rule sorted_le_last)
    then show "x \<le> b" using le assms(2) by simp
  qed
  show ?thesis
  proof (cases "checkpoints seg = []")
    case True
    then have "Checkpoint (store ?w') = Checkpoint (store w)" using seg(4) by auto
    then have "getLastProcessedBlock (store ?w') = getLastProcessedBlock (store w)"
      by (simp add: getLastProcessedBlock_def)
    moreover have "last (c # checkpoints ?new) \<le> b" using le assms(2) by simp
    ultimately show ?thesis
      using True J' cl' blocks' srt cur
      by (simp add: run_inv_def Let_def new' checkpoints_append
          del: sorted_wrt.simps last.simps)
  next
    case False
    then have cs: "checkpoints seg = [b]" and ck: "Checkpoint (store ?w') = Some b"
      using seg(4) by auto
    have "sorted ((c # checkpoints ?new) @ [b])"
      using srt all_le by (rule sorted_snoc_le)
    then show ?thesis
      using cs ck J' cl' blocks'
      by (simp add: run_inv_def Let_def new' checkpoints_append getLastProcessedBlock_def)
  qed
qed


lemma run_inv_mono: "run_inv J c lo s \<Longrightarrow> lo \<le> hi \<Longrightarrow> run_inv J c hi s"
  by (auto simp: run_inv_def Let_def list_all_iff simp del: last.simps sorted_wrt.simps)

lemma run_inv_fold:
  assumes "lo \<le> hi" and "run_inv J c lo (store w)"
  shows "run_inv J c hi (store (fold (fetchAndStoreEvents rpc) [lo + 1 ..< hi + 1] w))"
  using assms(1)
proof (induction rule: dec_induct)
  case base
  then show ?case using assms(2) by simp
next
  case (step n)
  have "[lo + 1 ..< Suc n + 1] = [lo + 1 ..< n + 1] @ [Suc n]" using step.hyps by simp
  then show ?case using run_inv_step [OF step.IH, of "Suc n" rpc] by simp
qed

lemma run_inv_fetchLiveBlocks:
  "sorted (startBlock # heads) \<Longrightarrow> run_inv J c startBlock (store w)
   \<Longrightarrow> run_inv J c (last (startBlock # heads)) (store (fetchLiveBlocks rpc startBlock heads w))"
proof (induction heads arbitrary: startBlock w)
  case Nil
  then show ?case by simp
next
  case (Cons h heads)
  have le: "startBlock \<le> h" and srt: "sorted (h # heads)" using Cons.prems(1) by simp_all
  have "run_inv J c h (store (fold (fetchAndStoreEvents rpc) [startBlock + 1 ..< h + 1] w))"
    using le Cons.prems(2) by (rule run_inv_fold)
  then show ?case using Cons.IH [OF srt] by simp
qed

lemma run_inv_init: "getLastProcessedBlock s \<le> hi \<Longrightarrow> run_inv (journal s) (getLastProcessedBlock s) hi s"
  by (simp add: run_inv_def)

lemma scanned_fetchAndStoreEvents: "scanned (fetchAndStoreEvents rpc b w) = scanned w @ [b]"
  by (simp add: fetchAndStoreEvents_def Let_def split: option.splits)

lemma scanned_fold:
  "scanned (fold (fetchAndStoreEvents rpc) bs w) = scanned w @ bs"
  by (induction bs arbitrary: w) (simp_all add: scanned_fetchAndStoreEvents)

lemma scanned_fetchLiveBlocks:
  "scanned (fetchLiveBlocks rpc startBlock heads w)
   = scanned w @ concat (map (\<lambda>(lo, hi). [lo + 1 ..< hi + 1]) (zip (startBlock # heads) heads))"
  by (induction heads arbitrary: startBlock w) (simp_all add: scanned_fold)

lemma ranges_increasing:
  "sorted (startBlock # heads)
   \<Longrightarrow> sorted_wrt (<) (concat (map (\<lambda>(lo, hi). [lo + 1 ..< hi + 1]) (zip (startBlock # heads) heads)))
     \<and> (\<forall>x\<in>set (concat (map (\<lambda>(lo, hi). [lo + 1 ..< hi + 1]) (zip (startBlock # heads) heads))).
          startBlock < x)"
proof (induction heads arbitrary: startBlock)
  case Nil
  then show ?case by simp
next
  case (Cons h heads)
  have le: "startBlock \<le> h" and srt: "sorted (h # heads)" using Cons.prems(1) by simp_all
  show ?case using Cons.IH [OF srt] le
    by (fastforce simp: sorted_wrt_append)
qed

lemma checkpoint_run:
  assumes "sorted (startBlock # heads)" and "getLastProcessedBlock (store w) \<le> startBlock"
  shows "\<exists>new. journal (store (fetchLiveBlocks rpc startBlock heads w)) = journal (store w) @ new
     \<and> sorted (getLastProcessedBlock (store w) # checkpoints new)
     \<and> getLastProcessedBlock (store (fetchLiveBlocks rpc startBlock heads w))
         = last (getLastProcessedBlock (store w) # checkpoints new)
     \<and> (\<forall>xs b ys. new = xs @ CheckpointWritten b # ys \<longrightarrow> (\<forall>x\<in>set ys. \<not> batch_write_of b x))"
proof -
  let ?s = "store (fetchLiveBlocks rpc startBlock heads w)"
  let ?J = "journal (store w)"
  let ?new = "drop (length ?J) (journal ?s)"
  have "run_inv ?J (getLastProcessedBlock (store w)) (last (startBlock # heads)) ?s"
    using assms(1) run_inv_init [OF assms(2)] by (rule run_inv_fetchLiveBlocks)
  then have J: "take (length ?J) (journal ?s) = ?J" and cl: "checkpoint_last ?new"
    and srt: "sorted (getLastProcessedBlock (store w) # checkpoints ?new)"
    and cur: "getLastProcessedBlock ?s = last (getLastProcessedBlock (store w) # checkpoints ?new)"
    by (simp_all add: run_inv_def Let_def)
  have "journal ?s = ?J @ ?new" using J by (metis append_take_drop_id)
  moreover have "\<forall>xs b ys. ?new = xs @ CheckpointWritten b # ys \<longrightarrow> (\<forall>x\<in>set ys. \<not> batch_write_of b x)"
    using checkpoint_last_split [OF cl] by blast
  ultimately show ?thesis using srt cur by blast
qed

lemma example_run:
  "fetchLiveBlocks example_rpc 0 [2] example_ingest =
     \<lparr>store = \<lparr>Bot = [example_bot\<lparr>score := 10\<rparr>],
               Mine = [\<lparr>mine_bot_address = Some ''0xa'', location = Some ''0x3'',
                        mine_type = ''Empty'', mine_timestamp = 5\<rparr>],
               Transaction = [\<lparr>tx_block = 2, event_name = ''TileMined'',
                               event_hash = Some TileMined_hash,
                               tx_data = [''0xa'', ''0x0'', ''0x3''], tx_timestamp = 5\<rparr>],
               Checkpoint = Some 2,
               journal = [BotsWritten 2, MinesWritten 2, TransactionsWritten 2, CheckpointWritten 2]\<rparr>,
      scanned = [1, 2]\<rparr>"
proof -
  have u: "[0 + 1 ..< 2 + 1] = [1, 2::nat]" by (simp add: upt_rec)
  have n: "eventName (Some TileMined_hash) = ''TileMined''"
    by (simp add: eventName_def EVENT_MAP_def hash_neq)
  show ?thesis
    unfolding fetchLiveBlocks.simps u
    by (simp add: fetchAndStoreEvents_def truthy_def mk_event_def at_def processEventsBatch_eq
        bulkBots_of_def bulkMines_of_def bulkTransactions_of_def updateCheckpoint_def n hash_neq)
qed

text \<open>
  Claim C4, as amended. Over a run of the ingestion loop in which the block numbers
  returned for the head of the ledger never decrease and are never below the start block,
  and in which the checkpoint at the start is not above the start block: the checkpoint
  values written, in the order of the journal and after the value at the start, never
  decrease; the checkpoint at the end is the last of them; and no batch write of a block
  follows the checkpoint write of that block. In every call for a block, whatever the
  heads: when the scan succeeds, the checkpoint write is the last entry of the journal,
  after the writes of \<open>processEventsBatch\<close> for that block; when the scan fails, the
  store (and with it the checkpoint) is left as it was.
\<close>

theorem checkpoint_monotone:
  "(sorted (startBlock # heads) \<and> getLastProcessedBlock (store w) \<le> startBlock \<longrightarrow>
      (\<exists>new. journal (store (fetchLiveBlocks rpc startBlock heads w)) = journal (store w) @ new
         \<and> sorted (getLastProcessedBlock (store w) # checkpoints new)
         \<and> getLastProcessedBlock (store (fetchLiveBlocks rpc startBlock heads w))
             = last (getLastProcessedBlock (store w) # checkpoints new)
         \<and> (\<forall>xs b ys. new = xs @ CheckpointWritten b # ys
               \<longrightarrow> (\<forall>x\<in>set ys. \<not> batch_write_of b x))))
   \<and> (\<forall>events. getEvents_loop blockNumber (rpc (length (scanned v)) blockNumber) [] = Some events
         \<longrightarrow> journal (store (fetchAndStoreEvents rpc blockNumber v))
             = journal (if events \<noteq> [] then processEventsBatch events blockNumber (store v) else store v)
               @ [CheckpointWritten blockNumber])
   \<and> (getEvents_loop blockNumber (rpc (length (scanned v)) blockNumber) [] = None
         \<longrightarrow> store (fetchAndStoreEvents rpc blockNumber v) = store v)"
proof (intro conjI impI)
  assume "sorted (startBlock # heads) \<and> getLastProcessedBlock (store w) \<le> startBlock"
  then show "\<exists>new. journal (store (fetchLiveBlocks rpc startBlock heads w)) = journal (store w) @ new
         \<and> sorted (getLastProcessedBlock (store w) # checkpoints new)
         \<and> getLastProcessedBlock (store (fetchLiveBlocks rpc startBlock heads w))
             = last (getLastProcessedBlock (store w) # checkpoints new)
         \<and> (\<forall>xs b ys. new = xs @ CheckpointWritten b # ys
               \<longrightarrow> (\<forall>x\<in>set ys. \<not> batch_write_of b x))"
    using checkpoint_run by blast
next
  show "\<forall>events. getEvents_loop blockNumber (rpc (length (scanned v)) blockNumber) [] = Some events
         \<longrightarrow> journal (store (fetchAndStoreEvents rpc blockNumber v))
             = journal (if events \<noteq> [] then processEventsBatch events blockNumber (store v) else store v)
               @ [CheckpointWritten blockNumber]"
    by (simp add: fetchAndStoreEvents_def updateCheckpoint_def)
next
  assume "getEvents_loop blockNumber (rpc (length (scanned v)) blockNumber) [] = None"
  then show "store (fetchAndStoreEvents rpc blockNumber v) = store v"
    by (simp add: fetchAndStoreEvents_def)
qed

theorem checkpoint_monotone_witness:
  "sorted (0 # [2::nat])
   \<and> getLastProcessedBlock (store example_ingest) \<le> 0
   \<and> getEvents_loop 1 (example_rpc (length (scanned example_ingest)) 1) [] = None
   \<and> store (fetchAndStoreEvents example_rpc 1 example_ingest) = store example_ingest
   \<and> getEvents_loop 2
         (example_rpc (length (scanned (fetchAndStoreEvents example_rpc 1 example_ingest))) 2) []
       = Some [\<lparr>ev_block = 2, ev_key = Some TileMined_hash,
                 ev_data = [''0xa'', ''0x0'', ''0x3''], ev_timestamp = 5\<rparr>]
   \<and> journal (store (fetchAndStoreEvents example_rpc 2
                        (fetchAndStoreEvents example_rpc 1 example_ingest)))
       = [BotsWritten 2, MinesWritten 2, TransactionsWritten 2, CheckpointWritten 2]
   \<and> journal (store (fetchLiveBlocks example_rpc 0 [2] example_ingest))
      = [BotsWritten 2, MinesWritten 2, TransactionsWritten 2, CheckpointWritten 2]
   \<and> (\<exists>new. journal (store (fetchLiveBlocks example_rpc 0 [2] example_ingest))
              = journal (store example_ingest) @ new
        \<and> sorted (getLastProcessedBlock (store example_ingest) # checkpoints new)
        \<and> getLastProcessedBlock (store (fetchLiveBlocks example_rpc 0 [2] example_ingest))
            = last (getLastProcessedBlock (store example_ingest) # checkpoints new)
        \<and> (\<forall>xs b ys. new = xs @ CheckpointWritten b # ys
              \<longrightarrow> (\<forall>x\<in>set ys. \<not> batch_write_of b x)))"
proof -
  let ?v = "fetchAndStoreEvents example_rpc 1 example_ingest"
  have h1: "sorted (0 # [2::nat])" by simp
  have h2: "getLastProcessedBlock (store example_ingest) \<le> 0"
    by (simp add: getLastProcessedBlock_def)
  have h3: "getEvents_loop 1 (example_rpc (length (scanned example_ingest)) 1) [] = None"
    by simp
  have v: "?v = example_ingest\<lparr>scanned := [1]\<rparr>" by (simp add: fetchAndStoreEvents_def)
  have h4: "getEvents_loop 2 (example_rpc (length (scanned ?v)) 2) []
       = Some [\<lparr>ev_block = 2, ev_key = Some TileMined_hash,
                 ev_data = [''0xa'', ''0x0'', ''0x3''], ev_timestamp = 5\<rparr>]"
    unfolding v by (simp add: truthy_def mk_event_def at_def)
  have j: "journal (processEventsBatch [\<lparr>ev_block = 2, ev_key = Some TileMined_hash,
                 ev_data = [''0xa'', ''0x0'', ''0x3''], ev_timestamp = 5\<rparr>] 2 (store ?v))
      = [BotsWritten 2, MinesWritten 2, TransactionsWritten 2]"
    unfolding v by (simp add: processEventsBatch_eq bulkBots_of_def bulkMines_of_def)
  show ?thesis
    using h1 h2 h3 h4 j
      checkpoint_monotone [of 0 "[2]" example_ingest example_rpc 1 example_ingest]
      checkpoint_monotone [of 0 "[2]" example_ingest example_rpc 2 ?v]
    unfolding example_run by simp
qed

text \<open>
  Claim C4 as stated fails. The loop takes each head as its next start block without
  comparing it with the checkpoint, and \<open>updateCheckpoint\<close> writes without comparing.
  From the checkpoint 5, with the head read as 3 and then as 5, the first turn visits no
  block and the second visits blocks 4 and 5: the checkpoint goes from 5 to 4, then to 5.
\<close>

theorem checkpoint_decreases_when_head_falls:
  "getLastProcessedBlock (store ingest_at_five) = 5
   \<and> scanned (fetchLiveBlocks quiet_rpc 5 [3, 5] ingest_at_five) = [4, 5]
   \<and> journal (store (fetchLiveBlocks quiet_rpc 5 [3, 5] ingest_at_five))
       = [CheckpointWritten 4, CheckpointWritten 5]
   \<and> getLastProcessedBlock (store (fetchLiveBlocks quiet_rpc 5 [3, 4] ingest_at_five)) = 4
   \<and> \<not> sorted (getLastProcessedBlock (store ingest_at_five)
                  # checkpoints (journal (store (fetchLiveBlocks quiet_rpc 5 [3, 5] ingest_at_five))))"
proof -
  have u: "[5 + 1 ..< 3 + 1] = ([]::nat list)" "[3 + 1 ..< 5 + 1] = [4, 5::nat]"
    "[3 + 1 ..< 4 + 1] = [4::nat]"
    by (simp_all add: upt_rec)
  show ?thesis
    unfolding fetchLiveBlocks.simps u
    by (simp add: fetchAndStoreEvents_def truthy_def updateCheckpoint_def
        getLastProcessedBlock_def)
qed

text \<open>
  Claim C5, as amended. The blocks that a run scans are fixed by the start block and by
  the heads observed: in each turn every block from \<open>startBlock + 1\<close> to the head, once
  and in increasing order, whatever the scans return; when the heads do not decrease, the
  whole sequence is strictly increasing, so no block is scanned twice. A scan that fails
  leaves the store and the checkpoint as they were, and the loop goes on to the next block.
\<close>

theorem failed_block_is_skipped:
  "scanned (fetchLiveBlocks rpc startBlock heads w)
     = scanned w @ concat (map (\<lambda>(lo, hi). [lo + 1 ..< hi + 1]) (zip (startBlock # heads) heads))
   \<and> (sorted (startBlock # heads) \<longrightarrow>
        sorted_wrt (<) (concat (map (\<lambda>(lo, hi). [lo + 1 ..< hi + 1]) (zip (startBlock # heads) heads))))
   \<and> (getEvents_loop b (rpc (length (scanned v)) b) [] = None \<longrightarrow>
        store (fetchAndStoreEvents rpc b v) = store v
        \<and> scanned (fetchAndStoreEvents rpc b v) = scanned v @ [b])"
  using ranges_increasing [of startBlock heads]
  by (simp add: scanned_fetchLiveBlocks scanned_fetchAndStoreEvents)
     (simp add: fetchAndStoreEvents_def)

theorem failed_block_is_skipped_witness:
  "sorted (0 # [2::nat])
   \<and> getEvents_loop 1 (example_rpc (length (scanned example_ingest)) 1) [] = None
   \<and> store (fetchAndStoreEvents example_rpc 1 example_ingest) = store example_ingest
   \<and> scanned (fetchAndStoreEvents example_rpc 1 example_ingest) = [1]
   \<and> scanned (fetchLiveBlocks example_rpc 0 [2] example_ingest) = [1, 2]"
  using failed_block_is_skipped [of example_rpc 0 "[2]" example_ingest 1 example_ingest]
  by (simp add: upt_rec)

text \<open>
  Claim C5 as stated fails. The scan of block 1 fails, and a second scan of it would
  succeed; the loop does not scan block 1 again but goes on to block 2, stores its event
  and sets the checkpoint to 2, so block 1 is skipped.
\<close>

theorem failed_block_not_retried:
  "getEvents_loop 1 (example_rpc 0 1) [] = None
   \<and> getEvents_loop 1 (example_rpc 1 1) [] \<noteq> None
   \<and> scanned (fetchLiveBlocks example_rpc 0 [2] example_ingest) = [1, 2]
   \<and> Checkpoint (store (fetchLiveBlocks example_rpc 0 [2] example_ingest)) = Some 2
   \<and> map tx_block (Transaction (store (fetchLiveBlocks example_rpc 0 [2] example_ingest))) = [2]"
  unfolding example_run by (simp add: truthy_def)

section \<open>The shared queue\<close>

lemma length_slice0:
  "0 \<le> e \<Longrightarrow> length (slice0 xs e) \<le> nat e"
  by (simp add: slice0_def)

lemma resume_queue_bound:
  "length (transactionQueue tm) \<le> maxQueueSize tm
   \<Longrightarrow> length (transactionQueue (fetchTransactions_resume now r tm)) \<le> maxQueueSize tm
     \<and> maxQueueSize (fetchTransactions_resume now r tm) = maxQueueSize tm
     \<and> connectedClients (fetchTransactions_resume now r tm) = connectedClients tm"
  by (cases r) (auto simp: fetchTransactions_resume_def Let_def slice0_def min_def)

lemma call_unchanged:
  "transactionQueue (fst (fetchTransactions_call limit tm)) = transactionQueue tm
   \<and> maxQueueSize (fst (fetchTransactions_call limit tm)) = maxQueueSize tm
   \<and> connectedClients (fst (fetchTransactions_call limit tm)) = connectedClients tm"
  by (simp add: fetchTransactions_call_def)

lemma startPolling_unchanged:
  "transactionQueue (fst (startPolling tm)) = transactionQueue tm
   \<and> maxQueueSize (fst (startPolling tm)) = maxQueueSize tm
   \<and> connectedClients (fst (startPolling tm)) = connectedClients tm"
  by (simp add: startPolling_def fetchTransactions_call_def)

lemma schedule_next_fields:
  "transactionQueue (schedule_next ws now tm) = transactionQueue tm"
  "maxQueueSize (schedule_next ws now tm) = maxQueueSize tm"
  by (simp_all add: schedule_next_def)

lemma send_queue:
  "length (transactionQueue (fst (sendBatchToClient ws rs now ok tm))) \<le> length (transactionQueue tm)
   \<and> maxQueueSize (fst (sendBatchToClient ws rs now ok tm)) = maxQueueSize tm"
  by (simp add: sendBatchToClient_def Let_def schedule_next_fields split: option.splits)

lemma remove_queue:
  "length (transactionQueue (removeClient ws tm)) \<le> length (transactionQueue tm)
   \<and> maxQueueSize (removeClient ws tm) = maxQueueSize tm"
  by (simp add: removeClient_def Let_def)

lemma start_queue:
  "length (transactionQueue (fst (startStreaming ws cid rs now ok tm))) \<le> length (transactionQueue tm)
   \<and> maxQueueSize (fst (startStreaming ws cid rs now ok tm)) = maxQueueSize tm"
proof -
  let ?tm1 = "tm\<lparr>connectedClients :=
                    AList.update ws
                      \<lparr>client_id = cid, batchSize = 10, nextBatchTime = now,
                       batchInterval = 100, queueBacklog = []\<rparr>
                      (connectedClients tm)\<rparr>"
  let ?tm2 = "if length (connectedClients ?tm1) = 1 then fst (startPolling ?tm1) else ?tm1"
  have 2: "transactionQueue ?tm2 = transactionQueue tm \<and> maxQueueSize ?tm2 = maxQueueSize tm"
    using startPolling_unchanged [of ?tm1] by simp
  have "fst (startStreaming ws cid rs now ok tm) = fst (sendBatchToClient ws rs now ok ?tm2)"
    by (simp add: startStreaming_def Let_def split: prod.splits)
  then show ?thesis using send_queue [of ws rs now ok ?tm2] 2 by simp
qed

lemma step_queue:
  assumes "length (transactionQueue tm) \<le> maxQueueSize tm"
  shows "length (transactionQueue (step t tm)) \<le> maxQueueSize (step t tm)
     \<and> maxQueueSize (step t tm) = maxQueueSize tm"
proof (cases t)
  case (Connect ws cid rs now ok)
  then show ?thesis using assms start_queue [of ws cid rs now ok tm] by simp
next
  case (Tick ws rs now ok)
  then show ?thesis using assms send_queue [of ws rs now ok tm] by simp
next
  case (Close ws)
  then show ?thesis using assms remove_queue [of ws tm] by simp
next
  case Poll
  then show ?thesis using assms call_unchanged [of 200 tm] by simp
next
  case (Answer now r)
  then show ?thesis using assms resume_queue_bound [of tm now r] by simp
qed

lemma fold_step_queue:
  "length (transactionQueue tm) \<le> maxQueueSize tm
   \<Longrightarrow> length (transactionQueue (fold step callbacks tm)) \<le> maxQueueSize (fold step callbacks tm)
     \<and> maxQueueSize (fold step callbacks tm) = maxQueueSize tm"
proof (induction callbacks arbitrary: tm)
  case Nil
  then show ?case by simp
next
  case (Cons t callbacks)
  have s: "length (transactionQueue (step t tm)) \<le> maxQueueSize (step t tm)"
    and m: "maxQueueSize (step t tm) = maxQueueSize tm"
    using step_queue [OF Cons.prems, of t] by simp_all
  show ?case using Cons.IH [OF s] m by simp
qed

lemma format_examples:
  "format_transaction 5 pending_tile = item_tile"
  "format_transaction 5 pending_other = item_other"
  by (simp_all add: format_transaction_def eventName_def EVENT_MAP_def at_def hash_neq
      SpawnedBot_hash_def TileMined_hash_def BombFound_hash_def DiamondFound_hash_def
      TileAlreadyMined_hash_def SuspendBot_hash_def ReviveBot_hash_def)

lemma run_two_clients:
  "run two_clients =
     \<lparr>transactionQueue = [item_tile, item_other], continuationToken = Some ''t1'',
      isFetching = False,
      connectedClients =
        [(1, \<lparr>client_id = 1, batchSize = 10, nextBatchTime = 100, batchInterval = 100,
               queueBacklog = []\<rparr>),
         (2, \<lparr>client_id = 2, batchSize = 10, nextBatchTime = 100, batchInterval = 100,
               queueBacklog = []\<rparr>)],
      pollInterval = True, maxQueueSize = 5000\<rparr>"
  by (simp add: run_def constructor_def startStreaming_def startPolling_def
      fetchTransactions_call_def fetchTransactions_resume_def sendBatchToClient_def
      schedule_next_def queueFactor10_def truthy_def slice0_def format_examples Let_def)

lemma run_flood:
  "run flood =
     \<lparr>transactionQueue = replicate 5000 item_tile, continuationToken = Some ''t1'',
      isFetching = False,
      connectedClients =
        [(1, \<lparr>client_id = 1, batchSize = 10, nextBatchTime = 100, batchInterval = 100,
               queueBacklog = []\<rparr>)],
      pollInterval = True, maxQueueSize = 5000\<rparr>"
  by (simp add: run_def constructor_def startStreaming_def startPolling_def
      fetchTransactions_call_def fetchTransactions_resume_def sendBatchToClient_def
      schedule_next_def queueFactor10_def truthy_def slice0_def format_examples Let_def)

text \<open>
  Claim C6. After every sequence of callbacks from the manager as constructed (connections,
  delivery ticks, closes, polling ticks and answers to the request in flight, in any
  order), the length of the shared transaction queue is at most \<open>maxQueueSize\<close>, which
  stays 5000; and in any state whose queue length is at or above \<open>maxQueueSize\<close>, a call
  of \<open>fetchTransactions\<close> issues no request and leaves the state as it is.
\<close>

theorem queue_never_exceeds_capacity:
  "length (transactionQueue (run callbacks)) \<le> maxQueueSize (run callbacks)
   \<and> maxQueueSize (run callbacks) = 5000
   \<and> (length (transactionQueue tm) \<ge> maxQueueSize tm
        \<longrightarrow> fetchTransactions_call limit tm = (tm, None))"
  using fold_step_queue [of constructor callbacks]
  by (simp add: run_def constructor_def fetchTransactions_call_def)

theorem queue_never_exceeds_capacity_witness:
  "length (transactionQueue (run flood)) \<ge> maxQueueSize (run flood)
   \<and> length (transactionQueue (run flood)) = 5000
   \<and> fetchTransactions_call 200 (run flood) = (run flood, None)
   \<and> step Poll (run flood) = run flood"
  using queue_never_exceeds_capacity [of flood "run flood" 200]
  unfolding run_flood by simp

section \<open>The backlogs of the clients\<close>

lemma push_backlog_eq:
  "push_backlog batch backlog = drop (length (backlog @ batch) - 1000) (backlog @ batch)"
  by (simp add: push_backlog_def Let_def)

lemma length_push_backlog: "length (push_backlog batch backlog) \<le> 1000"
  by (simp add: push_backlog_eq)

lemma drop_last_twice:
  "drop (length (drop (length xs - n) xs @ ys) - n) (drop (length xs - n) xs @ ys)
   = drop (length (xs @ ys) - n) (xs @ ys)"
proof (cases "length xs \<le> n")
  case True
  then show ?thesis by simp
next
  case False
  then have "length xs - (length xs - n) = n" by simp
  moreover have "length ys + (length xs - n) = length xs + length ys - n" using False by simp
  moreover have "length xs + length ys - n - length xs = length ys - n" using False by simp
  ultimately show ?thesis by simp
qed

lemma fold_push_backlog:
  "length backlog \<le> 1000
   \<Longrightarrow> fold push_backlog batches backlog
       = drop (length (backlog @ concat batches) - 1000) (backlog @ concat batches)"
proof (induction batches arbitrary: backlog)
  case Nil
  then show ?case by simp
next
  case (Cons b batches)
  have "fold push_backlog (b # batches) backlog = fold push_backlog batches (push_backlog b backlog)"
    by simp
  also have "\<dots> = drop (length (push_backlog b backlog @ concat batches) - 1000)
                      (push_backlog b backlog @ concat batches)"
    using Cons.IH [OF length_push_backlog] .
  also have "\<dots> = drop (length (backlog @ concat (b # batches)) - 1000) (backlog @ concat (b # batches))"
    using drop_last_twice [of "backlog @ b" 1000 "concat batches"]
    by (simp add: push_backlog_eq)
  finally show ?case .
qed

lemma capped_delete:
  "list_all P al \<Longrightarrow> list_all P (AList.delete k al)"
  by (induction al) auto

lemma capped_update:
  "list_all (\<lambda>(ws, ci). Q ci) al \<Longrightarrow> Q v \<Longrightarrow> list_all (\<lambda>(ws, ci). Q ci) (AList.update k v al)"
  by (induction al) auto

lemma capped_map_of:
  "list_all (\<lambda>(ws, ci). Q ci) al \<Longrightarrow> map_of al k = Some v \<Longrightarrow> Q v"
  by (induction al) (auto split: if_splits)

lemma list_all_map_if:
  "list_all (\<lambda>(w, ci). Q ci) (map (\<lambda>(w, ci). if c w then (w, g w ci) else (w, ci)) al)
   = list_all (\<lambda>(w, ci). if c w then Q (g w ci) else Q ci) al"
  by (induction al) (auto split: if_splits)

lemma schedule_next_capped:
  "backlogs_capped (schedule_next ws now tm) = backlogs_capped tm"
  unfolding backlogs_capped_def schedule_next_def
  by (simp add: list_all_map_if
      [of "\<lambda>ci. length (queueBacklog ci) \<le> 1000" "\<lambda>w. w = ws"])

lemma send_capped:
  assumes "backlogs_capped tm"
  shows "backlogs_capped (fst (sendBatchToClient ws rs now ok tm))"
proof (cases "map_of (connectedClients tm) ws")
  case None
  then show ?thesis using assms
    by (simp add: sendBatchToClient_def backlogs_capped_def capped_delete)
next
  case (Some ci)
  have ci: "length (queueBacklog ci) \<le> 1000"
    using capped_map_of [of "\<lambda>ci. length (queueBacklog ci) \<le> 1000", OF _ Some] assms
    by (simp add: backlogs_capped_def)
  let ?n = "min (length (queueBacklog ci)) (batchSize ci)"
  let ?k = "min (length (transactionQueue tm)) (batchSize ci)"
  have a: "backlogs_capped (tm\<lparr>connectedClients := AList.delete ws (connectedClients tm)\<rparr>)"
    using assms by (simp add: backlogs_capped_def capped_delete)
  have b: "backlogs_capped (tm\<lparr>connectedClients :=
             AList.update ws (ci\<lparr>queueBacklog := drop ?n (queueBacklog ci)\<rparr>) (connectedClients tm)\<rparr>)"
    using assms ci
    by (simp add: backlogs_capped_def
        capped_update [of "\<lambda>ci. length (queueBacklog ci) \<le> 1000"])
  have b': "backlogs_capped (tm\<lparr>connectedClients := AList.delete ws
             (AList.update ws (ci\<lparr>queueBacklog := drop ?n (queueBacklog ci)\<rparr>) (connectedClients tm))\<rparr>)"
    using b by (simp add: backlogs_capped_def capped_delete)
  have c: "backlogs_capped (tm\<lparr>transactionQueue := drop ?k (transactionQueue tm),
             connectedClients :=
               map (\<lambda>(otherWs, otherClientInfo).
                      if otherWs \<noteq> ws
                      then (otherWs, otherClientInfo\<lparr>queueBacklog :=
                              push_backlog (take ?k (transactionQueue tm)) (queueBacklog otherClientInfo)\<rparr>)
                      else (otherWs, otherClientInfo))
                   (connectedClients tm)\<rparr>)"
    using assms unfolding backlogs_capped_def
    by (simp add: length_push_backlog list_all_map_if
        [of "\<lambda>ci. length (queueBacklog ci) \<le> 1000" "\<lambda>w. w \<noteq> ws"])
       (auto simp: list_all_iff)
  have c': "backlogs_capped (tm\<lparr>transactionQueue := drop ?k (transactionQueue tm),
             connectedClients := AList.delete ws (connectedClients tm)\<rparr>)"
    using assms by (simp add: backlogs_capped_def capped_delete)
  show ?thesis
    using Some assms a b b' c c'
    by (simp add: sendBatchToClient_def Let_def schedule_next_capped)
qed


lemma start_capped:
  assumes "backlogs_capped tm"
  shows "backlogs_capped (fst (startStreaming ws cid rs now ok tm))"
proof -
  let ?ci = "\<lparr>client_id = cid, batchSize = 10, nextBatchTime = now,
              batchInterval = 100, queueBacklog = []\<rparr>"
  let ?tm1 = "tm\<lparr>connectedClients := AList.update ws ?ci (connectedClients tm)\<rparr>"
  let ?tm2 = "if length (connectedClients ?tm1) = 1 then fst (startPolling ?tm1) else ?tm1"
  have 1: "backlogs_capped ?tm1"
    using assms
    by (simp add: backlogs_capped_def
        capped_update [of "\<lambda>ci. length (queueBacklog ci) \<le> 1000"])
  have 2: "backlogs_capped ?tm2"
    using 1 startPolling_unchanged [of ?tm1] by (simp add: backlogs_capped_def)
  have "fst (startStreaming ws cid rs now ok tm) = fst (sendBatchToClient ws rs now ok ?tm2)"
    by (simp add: startStreaming_def Let_def split: prod.splits)
  then show ?thesis using send_capped [OF 2] by simp
qed

lemma remove_capped: "backlogs_capped tm \<Longrightarrow> backlogs_capped (removeClient ws tm)"
  by (simp add: removeClient_def Let_def backlogs_capped_def capped_delete)

lemma step_capped:
  assumes "backlogs_capped tm"
  shows "backlogs_capped (step t tm)"
proof (cases t)
  case (Connect ws cid rs now ok)
  then show ?thesis using start_capped [OF assms] by simp
next
  case (Tick ws rs now ok)
  then show ?thesis using send_capped [OF assms] by simp
next
  case (Close ws)
  then show ?thesis using remove_capped [OF assms] by simp
next
  case Poll
  then show ?thesis using assms call_unchanged [of 200 tm] by (simp add: backlogs_capped_def)
next
  case (Answer now r)
  have "connectedClients (fetchTransactions_resume now r tm) = connectedClients tm"
    by (cases r) (simp_all add: fetchTransactions_resume_def Let_def)
  then show ?thesis using Answer assms by (simp add: backlogs_capped_def)
qed

lemma fold_step_capped:
  "backlogs_capped tm \<Longrightarrow> backlogs_capped (fold step callbacks tm)"
  by (induction callbacks arbitrary: tm) (simp_all add: step_capped)

text \<open>
  Claim C7. After every sequence of callbacks, the backlog of every connected client has at
  most 1000 items. Appending a batch to a backlog gives at most 1000 items, namely the
  last 1000 items of the backlog followed by the batch, in order (the oldest are
  dropped); and after any sequence of appends to a backlog within the cap, the backlog is
  the last 1000 items of everything appended, in order.
\<close>

theorem backlog_never_exceeds_cap:
  "(\<forall>(ws, ci)\<in>set (connectedClients (run callbacks)). length (queueBacklog ci) \<le> 1000)
   \<and> length (push_backlog batch backlog) \<le> 1000
   \<and> push_backlog batch backlog = drop (length (backlog @ batch) - 1000) (backlog @ batch)
   \<and> (length backlog \<le> 1000 \<longrightarrow>
        fold push_backlog batches backlog
        = drop (length (backlog @ concat batches) - 1000) (backlog @ concat batches))"
proof -
  have "backlogs_capped (run callbacks)"
    unfolding run_def by (rule fold_step_capped) (simp add: backlogs_capped_def constructor_def)
  then have "\<forall>(ws, ci)\<in>set (connectedClients (run callbacks)). length (queueBacklog ci) \<le> 1000"
    by (simp add: backlogs_capped_def list_all_iff)
  then show ?thesis
    using fold_push_backlog [of backlog batches]
    by (simp add: length_push_backlog push_backlog_eq)
qed

theorem backlog_never_exceeds_cap_witness:
  "(2, \<lparr>client_id = 2, batchSize = 10, nextBatchTime = 100, batchInterval = 100,
         queueBacklog = [item_tile, item_other]\<rparr>)
     \<in> set (connectedClients (run (two_clients @ [Tick 1 1 100 True])))
   \<and> length [item_tile, item_other] \<le> (1000::nat)
   \<and> length (replicate 1000 item_tile) \<le> 1000
   \<and> fold push_backlog [[item_other]] (replicate 1000 item_tile)
       = replicate 999 item_tile @ [item_other]"
proof -
  have r: "run (two_clients @ [Tick 1 1 100 True]) = step (Tick 1 1 100 True) (run two_clients)"
    by (simp add: run_def)
  have c: "connectedClients (run (two_clients @ [Tick 1 1 100 True])) =
        [(1, \<lparr>client_id = 1, batchSize = 10, nextBatchTime = 200, batchInterval = 100,
               queueBacklog = []\<rparr>),
         (2, \<lparr>client_id = 2, batchSize = 10, nextBatchTime = 100, batchInterval = 100,
               queueBacklog = [item_tile, item_other]\<rparr>)]"
    unfolding r run_two_clients
    by (simp add: sendBatchToClient_def schedule_next_def queueFactor10_def push_backlog_def Let_def)
  have l: "length (replicate 1000 item_tile) \<le> 1000" by simp
  show ?thesis
    using backlog_never_exceeds_cap
            [of "two_clients @ [Tick 1 1 100 True]" "[]" "replicate 1000 item_tile" "[[item_other]]"]
          l
    unfolding c by simp
qed

section \<open>Delivery to a client\<close>












section \<open>The continuation token of the poller\<close>

text \<open>The oldest manager resets the token when the fetch throws, and keeps it when the
  answer has no events array.\<close>

lemma oldest_manager_resets_token:
  "continuationToken (fetchTransactions_resume_oldest now Throws tm) = None
   \<and> continuationToken (fetchTransactions_resume_oldest now NoEvents tm) = continuationToken tm"
  by (simp add: fetchTransactions_resume_oldest_def)

text \<open>
  Claim C9 fails on the manager with the bounded queue. After a page answered with the
  token \<open>t1\<close>, a polling tick issues a request; when that fetch throws, or when its
  answer has no \<open>result.events\<close>, the token is still \<open>t1\<close>, and the next request
  carries \<open>t1\<close> as its continuation token.
\<close>

theorem token_kept_after_failed_fetch:
  "continuationToken (run two_clients) = Some ''t1''
   \<and> snd (fetchTransactions_call 200 (run two_clients))
       = Some \<lparr>chunk_size = 200, continuation_token = Some ''t1''\<rparr>
   \<and> continuationToken (run (two_clients @ [Poll, Answer 6 Throws])) = Some ''t1''
   \<and> snd (fetchTransactions_call 200 (run (two_clients @ [Poll, Answer 6 Throws])))
       = Some \<lparr>chunk_size = 200, continuation_token = Some ''t1''\<rparr>
   \<and> continuationToken (run (two_clients @ [Poll, Answer 6 NoEvents])) = Some ''t1''
   \<and> snd (fetchTransactions_call 200 (run (two_clients @ [Poll, Answer 6 NoEvents])))
       = Some \<lparr>chunk_size = 200, continuation_token = Some ''t1''\<rparr>"
proof -
  have r: "\<And>ts. run (two_clients @ ts) = fold step ts (run two_clients)"
    by (simp add: run_def)
  show ?thesis
    unfolding r run_two_clients
    by (simp add: fetchTransactions_call_def fetchTransactions_resume_def truthy_def)
qed

section \<open>A page larger than the room left in the queue\<close>

text \<open>
  Claim C10. When an answer brings \<open>n\<close> events while \<open>r < n\<close> places are left below
  \<open>maxQueueSize\<close>, the queue grows by the first \<open>r\<close> events of the page, formatted, and
  is then full; the other \<open>n - r\<close> events are not enqueued; and the continuation token
  becomes the token of the answer, which continues after the whole page.
\<close>

theorem page_overflow_is_discarded:
  assumes "length (transactionQueue tm) \<le> maxQueueSize tm"
    and "maxQueueSize tm - length (transactionQueue tm) < length transactions"
  shows "transactionQueue (fetchTransactions_resume now (Events transactions token) tm)
           = transactionQueue tm
             @ map (format_transaction now)
                 (take (maxQueueSize tm - length (transactionQueue tm)) transactions)
       \<and> length (transactionQueue (fetchTransactions_resume now (Events transactions token) tm))
           = maxQueueSize tm
       \<and> continuationToken (fetchTransactions_resume now (Events transactions token) tm) = token"
proof -
  have n: "0 < length transactions" using assms(2) by (cases transactions) simp_all
  have d: "nat (int (maxQueueSize tm) - int (length (transactionQueue tm)))
           = maxQueueSize tm - length (transactionQueue tm)"
    by linarith
  show ?thesis
    using n assms by (simp add: fetchTransactions_resume_def Let_def slice0_def min_def d)
qed

theorem page_overflow_is_discarded_witness:
  "length (transactionQueue (run [Connect 1 1 1 0 True]))
     \<le> maxQueueSize (run [Connect 1 1 1 0 True])
   \<and> maxQueueSize (run [Connect 1 1 1 0 True]) - length (transactionQueue (run [Connect 1 1 1 0 True]))
       < length (replicate 6000 pending_tile)
   \<and> transactionQueue (run flood) = replicate 5000 item_tile
   \<and> continuationToken (run flood) = Some ''t1''"
proof -
  let ?tm = "run [Connect 1 1 1 0 True]"
  have tm: "?tm = \<lparr>transactionQueue = [], continuationToken = None, isFetching = True,
      connectedClients = [(1, client1)], pollInterval = True, maxQueueSize = 5000\<rparr>"
    by (simp add: run_def constructor_def startStreaming_def startPolling_def
      fetchTransactions_call_def sendBatchToClient_def schedule_next_def queueFactor10_def Let_def)
  have f: "run flood = fetchTransactions_resume 5 (Events (replicate 6000 pending_tile) (Some ''t1'')) ?tm"
    unfolding tm
    by (simp add: run_def constructor_def startStreaming_def startPolling_def
      fetchTransactions_call_def sendBatchToClient_def schedule_next_def queueFactor10_def Let_def)
  have q: "transactionQueue ?tm = []" and c: "maxQueueSize ?tm = 5000" unfolding tm by simp_all
  have h1: "length (transactionQueue ?tm) \<le> maxQueueSize ?tm" unfolding q c by simp
  have h2: "maxQueueSize ?tm - length (transactionQueue ?tm) < length (replicate 6000 pending_tile)"
    unfolding q c by simp
  show ?thesis
    using h1 h2 page_overflow_is_discarded [OF h1 h2, of 5 "Some ''t1''"]
    unfolding f [symmetric] q c
    by (simp add: format_examples)
qed

end
